theory Spec2Isabelle
  imports Main "HOL-Library.Word" "HOL-Library.Multiset"
begin

unbundle bit_operations_syntax

section \<open>Data model\<close>

type_synonym byte = "8 word"
type_synonym u16 = "16 word"
type_synonym u32 = "32 word"
type_synonym u64 = "64 word"

text \<open>Modelled from the spec: the ring degree \<open>N\<close> (256). The constant is declared in the
  parameter file of package \<open>common\<close>, which is not among the sources; the specification
  fixes its value.\<close>

definition N :: nat where
  "N = 256"

text \<open>The panics of the Go code: an index out of range, and the two explicit
  \<open>panic\<close> calls for an unsupported \<open>eta\<close>.\<close>

datatype error = IndexOutOfRange | EtaNotSupported | UnsupportedEta

section \<open>Fixed-width codecs\<close>

text \<open>A polynomial of the signature scheme is an array of \<open>N\<close> unsigned 32-bit
  coefficients. The modulus \<open>Q\<close> and the parameters \<open>D\<close>, \<open>Eta\<close>, \<open>DoubleEtaBits\<close> and
  \<open>Gamma1\<close> are constants of parameter files that are not among the sources; they are
  parameters of the model.\<close>

text \<open>Modelled from the spec: the buffer sizes of the fixed-width codecs, \<open>N \<cdot> width / 8\<close>
  bytes (9, 14, \<open>DoubleEtaBits\<close> and 20 bits per coefficient). The constants are declared in
  the parameter files, which are not among the sources.\<close>

definition PolyT1Size :: nat where
  "PolyT1Size = N * 9 div 8"

definition PolyT0Size :: nat where
  "PolyT0Size = N * 14 div 8"

definition PolyLeqEtaSize :: "int \<Rightarrow> nat" where
  "PolyLeqEtaSize DoubleEtaBits = N * nat DoubleEtaBits div 8"

definition PolyLeGamma1Size :: nat where
  "PolyLeGamma1Size = N * 20 div 8"

text \<open>The assignments \<open>a[i] = v0; a[i+1] = v1; ...\<close> of one loop iteration to consecutive
  indices of an array or slice.\<close>

fun store :: "'a list \<Rightarrow> nat \<Rightarrow> 'a list \<Rightarrow> 'a list" where
  "store a i [] = a"
| "store a i (v # vs) = store (a[i := v]) (i + 1) vs"

subsection \<open>\<open>Poly.PackT1\<close> and \<open>Poly.UnpackT1\<close>\<close>

text \<open>The nine bytes written by one iteration of \<open>PackT1\<close>.\<close>

definition PackT1_block :: "u32 list \<Rightarrow> nat \<Rightarrow> byte list" where
  "PackT1_block p j =
     [ucast (p ! j),
      ucast (drop_bit 8 (p ! j)) OR ucast (push_bit 1 (p ! (j + 1))),
      ucast (drop_bit 7 (p ! (j + 1))) OR ucast (push_bit 2 (p ! (j + 2))),
      ucast (drop_bit 6 (p ! (j + 2))) OR ucast (push_bit 3 (p ! (j + 3))),
      ucast (drop_bit 5 (p ! (j + 3))) OR ucast (push_bit 4 (p ! (j + 4))),
      ucast (drop_bit 4 (p ! (j + 4))) OR ucast (push_bit 5 (p ! (j + 5))),
      ucast (drop_bit 3 (p ! (j + 5))) OR ucast (push_bit 6 (p ! (j + 6))),
      ucast (drop_bit 2 (p ! (j + 6))) OR ucast (push_bit 7 (p ! (j + 7))),
      ucast (drop_bit 1 (p ! (j + 7)))]"

function PackT1_loop :: "u32 list \<Rightarrow> nat \<Rightarrow> nat \<Rightarrow> byte list \<Rightarrow> byte list" where
  "PackT1_loop p i j buf =
     (if i < PolyT1Size then PackT1_loop p (i + 9) (j + 8) (store buf i (PackT1_block p j))
      else buf)"
  by pat_completeness auto
termination
  by (relation "measure (\<lambda>(p, i, j, buf). PolyT1Size - i)") auto

declare PackT1_loop.simps [simp del]

text \<open>The loop writes \<open>buf[0]\<close> to \<open>buf[PolyT1Size - 1]\<close>: the call panics exactly when the
  buffer is shorter than \<open>PolyT1Size\<close>. The same holds for the other fixed-width codecs.\<close>

definition PackT1 :: "u32 list \<Rightarrow> byte list \<Rightarrow> error + byte list" where
  "PackT1 p buf =
     (if length buf < PolyT1Size then Inl IndexOutOfRange else Inr (PackT1_loop p 0 0 buf))"

text \<open>The eight coefficients written by one iteration of \<open>UnpackT1\<close>.\<close>

definition UnpackT1_block :: "byte list \<Rightarrow> nat \<Rightarrow> u32 list" where
  "UnpackT1_block buf i =
     [(ucast (buf ! i) OR push_bit 8 (ucast (buf ! (i + 1)))) AND 0x1ff,
      (ucast (drop_bit 1 (buf ! (i + 1))) OR push_bit 7 (ucast (buf ! (i + 2)))) AND 0x1ff,
      (ucast (drop_bit 2 (buf ! (i + 2))) OR push_bit 6 (ucast (buf ! (i + 3)))) AND 0x1ff,
      (ucast (drop_bit 3 (buf ! (i + 3))) OR push_bit 5 (ucast (buf ! (i + 4)))) AND 0x1ff,
      (ucast (drop_bit 4 (buf ! (i + 4))) OR push_bit 4 (ucast (buf ! (i + 5)))) AND 0x1ff,
      (ucast (drop_bit 5 (buf ! (i + 5))) OR push_bit 3 (ucast (buf ! (i + 6)))) AND 0x1ff,
      (ucast (drop_bit 6 (buf ! (i + 6))) OR push_bit 2 (ucast (buf ! (i + 7)))) AND 0x1ff,
      (ucast (drop_bit 7 (buf ! (i + 7))) OR push_bit 1 (ucast (buf ! (i + 8)))) AND 0x1ff]"

function UnpackT1_loop :: "byte list \<Rightarrow> nat \<Rightarrow> nat \<Rightarrow> u32 list \<Rightarrow> u32 list" where
  "UnpackT1_loop buf i j p =
     (if i < PolyT1Size then UnpackT1_loop buf (i + 9) (j + 8) (store p j (UnpackT1_block buf i))
      else p)"
  by pat_completeness auto
termination
  by (relation "measure (\<lambda>(buf, i, j, p). PolyT1Size - i)") auto

declare UnpackT1_loop.simps [simp del]

definition UnpackT1 :: "u32 list \<Rightarrow> byte list \<Rightarrow> error + u32 list" where
  "UnpackT1 p buf =
     (if length buf < PolyT1Size then Inl IndexOutOfRange else Inr (UnpackT1_loop buf 0 0 p))"

subsection \<open>\<open>Poly.PackT0\<close> and \<open>Poly.UnpackT0\<close>\<close>

text \<open>The seven bytes made of the locals \<open>p0\<close>, \<open>p1\<close>, \<open>p2\<close>, \<open>p3\<close>.\<close>

definition PackT0_bytes :: "u32 \<Rightarrow> u32 \<Rightarrow> u32 \<Rightarrow> u32 \<Rightarrow> byte list" where
  "PackT0_bytes p0 p1 p2 p3 =
     [ucast p0,
      ucast (drop_bit 8 p0) OR ucast (push_bit 6 p1),
      ucast (drop_bit 2 p1),
      ucast (drop_bit 10 p1) OR ucast (push_bit 4 p2),
      ucast (drop_bit 4 p2),
      ucast (drop_bit 12 p2) OR ucast (push_bit 2 p3),
      ucast (drop_bit 6 p3)]"

definition PackT0_block :: "u32 \<Rightarrow> nat \<Rightarrow> u32 list \<Rightarrow> nat \<Rightarrow> byte list" where
  "PackT0_block Q D p j =
     (let p0 = Q + push_bit (D - 1) 1 - p ! j;
          p1 = Q + push_bit (D - 1) 1 - p ! (j + 1);
          p2 = Q + push_bit (D - 1) 1 - p ! (j + 2);
          p3 = Q + push_bit (D - 1) 1 - p ! (j + 3)
      in PackT0_bytes p0 p1 p2 p3)"

function PackT0_loop :: "u32 \<Rightarrow> nat \<Rightarrow> u32 list \<Rightarrow> nat \<Rightarrow> nat \<Rightarrow> byte list \<Rightarrow> byte list" where
  "PackT0_loop Q D p i j buf =
     (if i < PolyT0Size then PackT0_loop Q D p (i + 7) (j + 4) (store buf i (PackT0_block Q D p j))
      else buf)"
  by pat_completeness auto
termination
  by (relation "measure (\<lambda>(Q, D, p, i, j, buf). PolyT0Size - i)") auto

declare PackT0_loop.simps [simp del]

definition PackT0 :: "u32 \<Rightarrow> nat \<Rightarrow> u32 list \<Rightarrow> byte list \<Rightarrow> error + byte list" where
  "PackT0 Q D p buf =
     (if length buf < PolyT0Size then Inl IndexOutOfRange else Inr (PackT0_loop Q D p 0 0 buf))"

definition UnpackT0_block :: "u32 \<Rightarrow> nat \<Rightarrow> byte list \<Rightarrow> nat \<Rightarrow> u32 list" where
  "UnpackT0_block Q D buf i =
     [Q + push_bit (D - 1) 1 -
        ((ucast (buf ! i) OR push_bit 8 (ucast (buf ! (i + 1)))) AND 0x3fff),
      Q + push_bit (D - 1) 1 -
        ((drop_bit 6 (ucast (buf ! (i + 1))) OR push_bit 2 (ucast (buf ! (i + 2))) OR
          push_bit 10 (ucast (buf ! (i + 3)))) AND 0x3fff),
      Q + push_bit (D - 1) 1 -
        ((drop_bit 4 (ucast (buf ! (i + 3))) OR push_bit 4 (ucast (buf ! (i + 4))) OR
          push_bit 12 (ucast (buf ! (i + 5)))) AND 0x3fff),
      Q + push_bit (D - 1) 1 -
        (drop_bit 2 (ucast (buf ! (i + 5))) OR push_bit 6 (ucast (buf ! (i + 6))))]"

function UnpackT0_loop :: "u32 \<Rightarrow> nat \<Rightarrow> byte list \<Rightarrow> nat \<Rightarrow> nat \<Rightarrow> u32 list \<Rightarrow> u32 list" where
  "UnpackT0_loop Q D buf i j p =
     (if i < PolyT0Size then UnpackT0_loop Q D buf (i + 7) (j + 4) (store p j (UnpackT0_block Q D buf i))
      else p)"
  by pat_completeness auto
termination
  by (relation "measure (\<lambda>(Q, D, buf, i, j, p). PolyT0Size - i)") auto

declare UnpackT0_loop.simps [simp del]

definition UnpackT0 :: "u32 \<Rightarrow> nat \<Rightarrow> u32 list \<Rightarrow> byte list \<Rightarrow> error + u32 list" where
  "UnpackT0 Q D p buf =
     (if length buf < PolyT0Size then Inl IndexOutOfRange else Inr (UnpackT0_loop Q D buf 0 0 p))"

subsection \<open>\<open>PolyPackLeqEta\<close> and \<open>PolyUnpackLeqEta\<close>\<close>

text \<open>The branch \<open>DoubleEtaBits == 4\<close>: one byte from two coefficients.\<close>

definition PackLeqEta4_block :: "u32 \<Rightarrow> u32 \<Rightarrow> u32 list \<Rightarrow> nat \<Rightarrow> byte list" where
  "PackLeqEta4_block Q Eta p j =
     [ucast (Q + Eta - p ! j) OR push_bit 4 (ucast (Q + Eta - p ! (j + 1)))]"

function PackLeqEta4_loop :: "u32 \<Rightarrow> u32 \<Rightarrow> u32 list \<Rightarrow> nat \<Rightarrow> nat \<Rightarrow> byte list \<Rightarrow> byte list" where
  "PackLeqEta4_loop Q Eta p i j buf =
     (if i < PolyLeqEtaSize 4
      then PackLeqEta4_loop Q Eta p (i + 1) (j + 2) (store buf i (PackLeqEta4_block Q Eta p j))
      else buf)"
  by pat_completeness auto
termination
  by (relation "measure (\<lambda>(Q, Eta, p, i, j, buf). PolyLeqEtaSize 4 - i)") auto

declare PackLeqEta4_loop.simps [simp del]

text \<open>The branch \<open>DoubleEtaBits == 3\<close>: three bytes from eight coefficients.\<close>

definition PackLeqEta3_block :: "u32 \<Rightarrow> u32 \<Rightarrow> u32 list \<Rightarrow> nat \<Rightarrow> byte list" where
  "PackLeqEta3_block Q Eta p j =
     [ucast (Q + Eta - p ! j) OR
        push_bit 3 (ucast (Q + Eta - p ! (j + 1))) OR
        push_bit 6 (ucast (Q + Eta - p ! (j + 2))),
      drop_bit 2 (ucast (Q + Eta - p ! (j + 2))) OR
        push_bit 1 (ucast (Q + Eta - p ! (j + 3))) OR
        push_bit 4 (ucast (Q + Eta - p ! (j + 4))) OR
        push_bit 7 (ucast (Q + Eta - p ! (j + 5))),
      drop_bit 1 (ucast (Q + Eta - p ! (j + 5))) OR
        push_bit 2 (ucast (Q + Eta - p ! (j + 6))) OR
        push_bit 5 (ucast (Q + Eta - p ! (j + 7)))]"

function PackLeqEta3_loop :: "u32 \<Rightarrow> u32 \<Rightarrow> u32 list \<Rightarrow> nat \<Rightarrow> nat \<Rightarrow> byte list \<Rightarrow> byte list" where
  "PackLeqEta3_loop Q Eta p i j buf =
     (if i < PolyLeqEtaSize 3
      then PackLeqEta3_loop Q Eta p (i + 3) (j + 8) (store buf i (PackLeqEta3_block Q Eta p j))
      else buf)"
  by pat_completeness auto
termination
  by (relation "measure (\<lambda>(Q, Eta, p, i, j, buf). PolyLeqEtaSize 3 - i)") auto

declare PackLeqEta3_loop.simps [simp del]

definition PolyPackLeqEta :: "u32 \<Rightarrow> u32 \<Rightarrow> int \<Rightarrow> u32 list \<Rightarrow> byte list \<Rightarrow> error + byte list" where
  "PolyPackLeqEta Q Eta DoubleEtaBits p buf =
     (if DoubleEtaBits = 4 then
        (if length buf < PolyLeqEtaSize 4 then Inl IndexOutOfRange
         else Inr (PackLeqEta4_loop Q Eta p 0 0 buf))
      else if DoubleEtaBits = 3 then
        (if length buf < PolyLeqEtaSize 3 then Inl IndexOutOfRange
         else Inr (PackLeqEta3_loop Q Eta p 0 0 buf))
      else Inl EtaNotSupported)"

definition UnpackLeqEta4_block :: "u32 \<Rightarrow> u32 \<Rightarrow> byte list \<Rightarrow> nat \<Rightarrow> u32 list" where
  "UnpackLeqEta4_block Q Eta buf i =
     [Q + Eta - ucast (buf ! i AND 15),
      Q + Eta - ucast (drop_bit 4 (buf ! i))]"

function UnpackLeqEta4_loop :: "u32 \<Rightarrow> u32 \<Rightarrow> byte list \<Rightarrow> nat \<Rightarrow> nat \<Rightarrow> u32 list \<Rightarrow> u32 list" where
  "UnpackLeqEta4_loop Q Eta buf i j p =
     (if i < PolyLeqEtaSize 4
      then UnpackLeqEta4_loop Q Eta buf (i + 1) (j + 2) (store p j (UnpackLeqEta4_block Q Eta buf i))
      else p)"
  by pat_completeness auto
termination
  by (relation "measure (\<lambda>(Q, Eta, buf, i, j, p). PolyLeqEtaSize 4 - i)") auto

declare UnpackLeqEta4_loop.simps [simp del]

definition UnpackLeqEta3_block :: "u32 \<Rightarrow> u32 \<Rightarrow> byte list \<Rightarrow> nat \<Rightarrow> u32 list" where
  "UnpackLeqEta3_block Q Eta buf i =
     [Q + Eta - ucast (buf ! i AND 7),
      Q + Eta - ucast (drop_bit 3 (buf ! i) AND 7),
      Q + Eta - ucast (drop_bit 6 (buf ! i) OR (push_bit 2 (buf ! (i + 1)) AND 7)),
      Q + Eta - ucast (drop_bit 1 (buf ! (i + 1)) AND 7),
      Q + Eta - ucast (drop_bit 4 (buf ! (i + 1)) AND 7),
      Q + Eta - ucast (drop_bit 7 (buf ! (i + 1)) OR (push_bit 1 (buf ! (i + 2)) AND 7)),
      Q + Eta - ucast (drop_bit 2 (buf ! (i + 2)) AND 7),
      Q + Eta - ucast (drop_bit 5 (buf ! (i + 2)) AND 7)]"

function UnpackLeqEta3_loop :: "u32 \<Rightarrow> u32 \<Rightarrow> byte list \<Rightarrow> nat \<Rightarrow> nat \<Rightarrow> u32 list \<Rightarrow> u32 list" where
  "UnpackLeqEta3_loop Q Eta buf i j p =
     (if i < PolyLeqEtaSize 3
      then UnpackLeqEta3_loop Q Eta buf (i + 3) (j + 8) (store p j (UnpackLeqEta3_block Q Eta buf i))
      else p)"
  by pat_completeness auto
termination
  by (relation "measure (\<lambda>(Q, Eta, buf, i, j, p). PolyLeqEtaSize 3 - i)") auto

declare UnpackLeqEta3_loop.simps [simp del]

definition PolyUnpackLeqEta :: "u32 \<Rightarrow> u32 \<Rightarrow> int \<Rightarrow> u32 list \<Rightarrow> byte list \<Rightarrow> error + u32 list" where
  "PolyUnpackLeqEta Q Eta DoubleEtaBits p buf =
     (if DoubleEtaBits = 4 then
        (if length buf < PolyLeqEtaSize 4 then Inl IndexOutOfRange
         else Inr (UnpackLeqEta4_loop Q Eta buf 0 0 p))
      else if DoubleEtaBits = 3 then
        (if length buf < PolyLeqEtaSize 3 then Inl IndexOutOfRange
         else Inr (UnpackLeqEta3_loop Q Eta buf 0 0 p))
      else Inl EtaNotSupported)"

subsection \<open>\<open>PolyPackLeGamma1\<close> and \<open>PolyUnpackLeGamma1\<close>\<close>

text \<open>The idiom \<open>x += uint32(int32(x)>>31) & Q\<close>: add \<open>Q\<close> when \<open>x\<close> is negative as a signed
  32-bit value.\<close>

definition add_Q_if_negative :: "u32 \<Rightarrow> u32 \<Rightarrow> u32" where
  "add_Q_if_negative Q x = x + (signed_drop_bit 31 x AND Q)"

definition PackLeGamma1_bytes :: "u32 \<Rightarrow> u32 \<Rightarrow> byte list" where
  "PackLeGamma1_bytes p0 p1 =
     [ucast p0,
      ucast (drop_bit 8 p0),
      ucast (drop_bit 16 p0) OR ucast (push_bit 4 p1),
      ucast (drop_bit 4 p1),
      ucast (drop_bit 12 p1)]"

definition PackLeGamma1_block :: "u32 \<Rightarrow> u32 \<Rightarrow> u32 list \<Rightarrow> nat \<Rightarrow> byte list" where
  "PackLeGamma1_block Q Gamma1 p j =
     (let p0 = add_Q_if_negative Q (Gamma1 - 1 - p ! j);
          p1 = add_Q_if_negative Q (Gamma1 - 1 - p ! (j + 1))
      in PackLeGamma1_bytes p0 p1)"

function PackLeGamma1_loop :: "u32 \<Rightarrow> u32 \<Rightarrow> u32 list \<Rightarrow> nat \<Rightarrow> nat \<Rightarrow> byte list \<Rightarrow> byte list" where
  "PackLeGamma1_loop Q Gamma1 p i j buf =
     (if i < PolyLeGamma1Size
      then PackLeGamma1_loop Q Gamma1 p (i + 5) (j + 2) (store buf i (PackLeGamma1_block Q Gamma1 p j))
      else buf)"
  by pat_completeness auto
termination
  by (relation "measure (\<lambda>(Q, Gamma1, p, i, j, buf). PolyLeGamma1Size - i)") auto

declare PackLeGamma1_loop.simps [simp del]

definition PolyPackLeGamma1 :: "u32 \<Rightarrow> u32 \<Rightarrow> u32 list \<Rightarrow> byte list \<Rightarrow> error + byte list" where
  "PolyPackLeGamma1 Q Gamma1 p buf =
     (if length buf < PolyLeGamma1Size then Inl IndexOutOfRange
      else Inr (PackLeGamma1_loop Q Gamma1 p 0 0 buf))"

text \<open>\<open>binary.LittleEndian.Uint64(buf[k:])\<close> on a buffer with at least \<open>k + 8\<close> bytes.\<close>

definition Uint64_at :: "byte list \<Rightarrow> nat \<Rightarrow> u64" where
  "Uint64_at buf k =
     (ucast (buf ! k) OR push_bit 8 (ucast (buf ! (k + 1))) OR
      push_bit 16 (ucast (buf ! (k + 2))) OR push_bit 24 (ucast (buf ! (k + 3))) OR
      push_bit 32 (ucast (buf ! (k + 4))) OR push_bit 40 (ucast (buf ! (k + 5))) OR
      push_bit 48 (ucast (buf ! (k + 6))) OR push_bit 56 (ucast (buf ! (k + 7))))"

text \<open>The twenty-bit fields that one iteration of \<open>PolyUnpackLeGamma1\<close> cuts out of five
  64-bit words, before they are subtracted from \<open>Gamma1 - 1\<close>.\<close>

definition UnpackLeGamma1_fields :: "byte list \<Rightarrow> nat \<Rightarrow> u32 list" where
  "UnpackLeGamma1_fields buf i =
     (let a0 = Uint64_at buf i;
          a1 = Uint64_at buf (i + 8);
          a2 = Uint64_at buf (i + 16);
          a3 = Uint64_at buf (i + 24);
          a4 = Uint64_at buf (i + 32)
      in [ucast (a0 AND 0xfffff),
          ucast (drop_bit 20 a0 AND 0xfffff),
          ucast (drop_bit 40 a0 AND 0xfffff),
          ucast ((drop_bit 60 a0 OR push_bit 4 a1) AND 0xfffff),
          ucast (drop_bit 16 a1 AND 0xfffff),
          ucast (drop_bit 36 a1 AND 0xfffff),
          ucast ((drop_bit 56 a1 OR push_bit 8 a2) AND 0xfffff),
          ucast (drop_bit 12 a2 AND 0xfffff),
          ucast (drop_bit 32 a2 AND 0xfffff),
          ucast ((drop_bit 52 a2 OR push_bit 12 a3) AND 0xfffff),
          ucast (drop_bit 8 a3 AND 0xfffff),
          ucast (drop_bit 28 a3 AND 0xfffff),
          ucast ((drop_bit 48 a3 OR push_bit 16 a4) AND 0xfffff),
          ucast (drop_bit 4 a4 AND 0xfffff),
          ucast (drop_bit 24 a4 AND 0xfffff),
          ucast (drop_bit 44 a4 AND 0xfffff)])"

text \<open>The sixteen coefficients \<open>p0\<close>, ..., \<open>p15\<close> of one iteration: each field is subtracted
  from \<open>Gamma1 - 1\<close> and \<open>Q\<close> is added to a negative difference.\<close>

definition UnpackLeGamma1_block :: "u32 \<Rightarrow> u32 \<Rightarrow> byte list \<Rightarrow> nat \<Rightarrow> u32 list" where
  "UnpackLeGamma1_block Q Gamma1 buf i =
     map (\<lambda>f. add_Q_if_negative Q (Gamma1 - 1 - f)) (UnpackLeGamma1_fields buf i)"

function UnpackLeGamma1_loop :: "u32 \<Rightarrow> u32 \<Rightarrow> byte list \<Rightarrow> nat \<Rightarrow> nat \<Rightarrow> u32 list \<Rightarrow> u32 list" where
  "UnpackLeGamma1_loop Q Gamma1 buf i j p =
     (if i < PolyLeGamma1Size
      then UnpackLeGamma1_loop Q Gamma1 buf (i + 40) (j + 16)
             (store p j (UnpackLeGamma1_block Q Gamma1 buf i))
      else p)"
  by pat_completeness auto
termination
  by (relation "measure (\<lambda>(Q, Gamma1, buf, i, j, p). PolyLeGamma1Size - i)") auto

declare UnpackLeGamma1_loop.simps [simp del]

definition PolyUnpackLeGamma1 :: "u32 \<Rightarrow> u32 \<Rightarrow> u32 list \<Rightarrow> byte list \<Rightarrow> error + u32 list" where
  "PolyUnpackLeGamma1 Q Gamma1 p buf =
     (if length buf < PolyLeGamma1Size then Inl IndexOutOfRange
      else Inr (UnpackLeGamma1_loop Q Gamma1 buf 0 0 p))"

subsection \<open>The documented input ranges of the fixed-width codecs\<close>

text \<open>A coefficient of \<open>T1\<close> is below 512; a coefficient of \<open>T0\<close> lies in
  \<open>(Q - 2\<^sup>D\<^sup>-\<^sup>1, Q + 2\<^sup>D\<^sup>-\<^sup>1]\<close>; a bounded-noise coefficient lies in \<open>[Q - Eta, Q + Eta]\<close>; a
  coefficient of the masking vector is normalized with magnitude below \<open>Gamma1\<close>, that is
  in \<open>[0, Gamma1)\<close> or in \<open>(Q - Gamma1, Q)\<close>.\<close>

definition T1_range :: "u32 \<Rightarrow> bool" where
  "T1_range c = (c < 512)"

definition T0_range :: "u32 \<Rightarrow> nat \<Rightarrow> u32 \<Rightarrow> bool" where
  "T0_range Q D c = (uint Q - 2 ^ (D - 1) < uint c \<and> uint c \<le> uint Q + 2 ^ (D - 1))"

definition LeqEta_range :: "u32 \<Rightarrow> u32 \<Rightarrow> u32 \<Rightarrow> bool" where
  "LeqEta_range Q Eta c = (uint Q - uint Eta \<le> uint c \<and> uint c \<le> uint Q + uint Eta)"

definition LeGamma1_range :: "u32 \<Rightarrow> u32 \<Rightarrow> u32 \<Rightarrow> bool" where
  "LeGamma1_range Q Gamma1 c =
     (uint c < uint Gamma1 \<or> (uint Q - uint Gamma1 < uint c \<and> uint c < uint Q))"

section \<open>Sparse challenge codec: \<open>Poly.UnpackB60\<close>\<close>

text \<open>The 64-bit sign field assembled from bytes 32..39 of the buffer.\<close>

definition B60_signs :: "byte list \<Rightarrow> u64" where
  "B60_signs buf =
     (ucast (buf ! 32) OR push_bit 8 (ucast (buf ! 33)) OR
      push_bit 16 (ucast (buf ! 34)) OR push_bit 24 (ucast (buf ! 35)) OR
      push_bit 32 (ucast (buf ! 36)) OR push_bit 40 (ucast (buf ! 37)) OR
      push_bit 48 (ucast (buf ! 38)) OR push_bit 56 (ucast (buf ! 39)))"

text \<open>The loop \<open>for j := 0; j < 8; j++\<close> over the bits of mask byte \<open>i\<close>; the state is the
  polynomial and the remaining sign bits.\<close>

function UnpackB60_bits :: "u32 \<Rightarrow> byte list \<Rightarrow> nat \<Rightarrow> nat \<Rightarrow> u32 list \<times> u64 \<Rightarrow> u32 list \<times> u64" where
  "UnpackB60_bits Q buf i j (p, signs) =
     (if j < 8 then
        (if drop_bit j (buf ! i) AND 1 = 1 then
           (let p1 = p[8 * i + j := 1];
                p2 = p1[8 * i + j := (p1 ! (8 * i + j)) XOR (ucast (- (signs AND 1)) AND (1 OR (Q - 1)))]
            in UnpackB60_bits Q buf i (j + 1) (p2, drop_bit 1 signs))
         else UnpackB60_bits Q buf i (j + 1) (p, signs))
      else (p, signs))"
  by pat_completeness auto
termination
  by (relation "measure (\<lambda>(Q, buf, i, j, s). 8 - j)") auto

declare UnpackB60_bits.simps [simp del]

text \<open>The loop \<open>for i := 0; i < 32; i++\<close> over the mask bytes.\<close>

function UnpackB60_bytes :: "u32 \<Rightarrow> byte list \<Rightarrow> nat \<Rightarrow> u32 list \<times> u64 \<Rightarrow> u32 list \<times> u64" where
  "UnpackB60_bytes Q buf i s =
     (if i < 32 then UnpackB60_bytes Q buf (i + 1) (UnpackB60_bits Q buf i 0 s) else s)"
  by pat_completeness auto
termination
  by (relation "measure (\<lambda>(Q, buf, i, s). 32 - i)") auto

declare UnpackB60_bytes.simps [simp del]

text \<open>\<open>UnpackB60\<close>: the receiver \<open>p\<close> is overwritten with the zero polynomial first; the
  result is the new value of the receiver and the returned flag. Reading \<open>buf[32..39]\<close>
  panics exactly when the buffer has fewer than 40 bytes, before anything is returned.\<close>

definition UnpackB60 :: "u32 \<Rightarrow> u32 list \<Rightarrow> byte list \<Rightarrow> error + (u32 list \<times> bool)" where
  "UnpackB60 Q p buf =
     (if length buf < 40 then Inl IndexOutOfRange
      else
        (let p0 = replicate N (0 :: u32);
             signs = B60_signs buf
         in if drop_bit 60 signs \<noteq> 0 then Inr (p0, False)
            else Inr (fst (UnpackB60_bytes Q buf 0 (p0, signs)), True)))"

text \<open>The number of set bits in the 32-byte mask (bytes 0..31 of the buffer).\<close>

definition popcount8 :: "byte \<Rightarrow> nat" where
  "popcount8 b = length (filter (bit b) [0..<8])"

definition B60_mask_bits :: "byte list \<Rightarrow> nat" where
  "B60_mask_bits buf = sum_list (map (\<lambda>i. popcount8 (buf ! i)) [0..<32])"

definition B60_accept_buf :: "byte list" where
  "B60_accept_buf = replicate 7 255 @ [15] @ replicate 24 0 @ replicate 8 0"

definition B60_reject_buf :: "byte list" where
  "B60_reject_buf = replicate 32 0 @ replicate 7 0 @ [16]"

section \<open>Hint vector codec: \<open>VecK.UnpackHint\<close>\<close>

text \<open>The vector dimension \<open>K\<close> and the hint budget \<open>Omega\<close> are constants of the parameter
  file of the mode, which is not among the sources; they are parameters of the model.
  \<open>Omega\<close> is compared with a \<open>uint8\<close>, so the Go code only compiles for \<open>Omega \<le> 255\<close>.
  A \<open>VecK\<close> is a list of \<open>K\<close> polynomials.\<close>

text \<open>The loop \<open>for j := prevSOP; j < SOP; j++\<close> over the index bytes of one polynomial
  \<open>v[i]\<close>: returns the updated polynomial and \<open>False\<close> for the early \<open>return false\<close>.
  The counter is a \<open>uint8\<close> below \<open>SOP \<le> 255\<close>, so it never wraps; \<open>buf[j]\<close> is below
  \<open>N = 256\<close>, so the write is in range.\<close>

function UnpackHint_indices :: "byte list \<Rightarrow> nat \<Rightarrow> nat \<Rightarrow> nat \<Rightarrow> u32 list \<Rightarrow> u32 list \<times> bool" where
  "UnpackHint_indices buf prevSOP SOP j vi =
     (if j < SOP then
        (if j > prevSOP \<and> buf ! j \<le> buf ! (j - 1) then (vi, False)
         else UnpackHint_indices buf prevSOP SOP (j + 1) (vi[unat (buf ! j) := 1]))
      else (vi, True))"
  by pat_completeness auto
termination
  by (relation "measure (\<lambda>(buf, prevSOP, SOP, j, vi). SOP - j)") auto

declare UnpackHint_indices.simps [simp del]

text \<open>The loop \<open>for i := 0; i < K; i++\<close>: returns the vector, whether no check failed, and
  the last switch-over point. Reading \<open>buf[Omega+i]\<close> panics on a buffer that is too short.\<close>

function UnpackHint_polys :: "nat \<Rightarrow> nat \<Rightarrow> byte list \<Rightarrow> nat \<Rightarrow> byte \<Rightarrow> u32 list list
    \<Rightarrow> error + (u32 list list \<times> bool \<times> byte)" where
  "UnpackHint_polys K Omega buf i prevSOP v =
     (if i < K then
        (if length buf \<le> Omega + i then Inl IndexOutOfRange
         else
           (let SOP = buf ! (Omega + i) in
            if SOP < prevSOP \<or> Omega < unat SOP then Inr (v, False, prevSOP)
            else
              (case UnpackHint_indices buf (unat prevSOP) (unat SOP) (unat prevSOP) (v ! i) of
                 (vi, ok) \<Rightarrow>
                   if ok then UnpackHint_polys K Omega buf (i + 1) SOP (v[i := vi])
                   else Inr (v[i := vi], False, prevSOP))))
      else Inr (v, True, prevSOP))"
  by pat_completeness auto
termination
  by (relation "measure (\<lambda>(K, Omega, buf, i, prevSOP, v). K - i)") auto

declare UnpackHint_polys.simps [simp del]

text \<open>The final loop \<open>for j := prevSOP; j < Omega; j++\<close> over the padding.\<close>

function UnpackHint_padding :: "nat \<Rightarrow> byte list \<Rightarrow> nat \<Rightarrow> error + bool" where
  "UnpackHint_padding Omega buf j =
     (if j < Omega then
        (if length buf \<le> j then Inl IndexOutOfRange
         else if buf ! j \<noteq> 0 then Inr False
         else UnpackHint_padding Omega buf (j + 1))
      else Inr True)"
  by pat_completeness auto
termination
  by (relation "measure (\<lambda>(Omega, buf, j). Omega - j)") auto

declare UnpackHint_padding.simps [simp del]

text \<open>\<open>UnpackHint\<close>: the receiver \<open>v\<close> is zeroed first; the result is the new value of the
  receiver and the returned flag.\<close>

definition UnpackHint :: "nat \<Rightarrow> nat \<Rightarrow> u32 list list \<Rightarrow> byte list \<Rightarrow> error + (u32 list list \<times> bool)" where
  "UnpackHint K Omega v buf =
     (case UnpackHint_polys K Omega buf 0 0 (replicate K (replicate N 0)) of
        Inl e \<Rightarrow> Inl e
      | Inr (v', ok, prevSOP) \<Rightarrow>
          if \<not> ok then Inr (v', False)
          else (case UnpackHint_padding Omega buf (unat prevSOP) of
                  Inl e \<Rightarrow> Inl e
                | Inr ok' \<Rightarrow> Inr (v', ok')))"

subsection \<open>The rejection conditions of the hint codec, as the specification words them\<close>

text \<open>The \<open>i\<close>-th switch-over point of a buffer, and the one before it (0 before the first).\<close>

definition hint_SOP :: "nat \<Rightarrow> byte list \<Rightarrow> nat \<Rightarrow> byte" where
  "hint_SOP Omega buf i = buf ! (Omega + i)"

definition hint_prevSOP :: "nat \<Rightarrow> byte list \<Rightarrow> nat \<Rightarrow> byte" where
  "hint_prevSOP Omega buf i = (if i = 0 then 0 else buf ! (Omega + (i - 1)))"

text \<open>Some switch-over point is smaller than the previous one.\<close>

definition hint_SOP_decreases :: "nat \<Rightarrow> nat \<Rightarrow> byte list \<Rightarrow> bool" where
  "hint_SOP_decreases K Omega buf =
     (\<exists>i \<in> set [0..<K]. hint_SOP Omega buf i < hint_prevSOP Omega buf i)"

text \<open>Some switch-over point exceeds \<open>Omega\<close>.\<close>

definition hint_SOP_exceeds :: "nat \<Rightarrow> nat \<Rightarrow> byte list \<Rightarrow> bool" where
  "hint_SOP_exceeds K Omega buf =
     (\<exists>i \<in> set [0..<K]. Omega < unat (hint_SOP Omega buf i))"

text \<open>Within the index range of one element, some index is not strictly greater than its
  predecessor in that range.\<close>

definition hint_index_disorder :: "nat \<Rightarrow> nat \<Rightarrow> byte list \<Rightarrow> bool" where
  "hint_index_disorder K Omega buf =
     (\<exists>i \<in> set [0..<K].
        \<exists>j \<in> set [Suc (unat (hint_prevSOP Omega buf i))..<unat (hint_SOP Omega buf i)].
          buf ! j \<le> buf ! (j - 1))"

text \<open>Some index byte beyond the last switch-over point is nonzero.\<close>

definition hint_padding_nonzero :: "nat \<Rightarrow> nat \<Rightarrow> byte list \<Rightarrow> bool" where
  "hint_padding_nonzero K Omega buf =
     (\<exists>j \<in> set [unat (hint_prevSOP Omega buf K)..<Omega]. buf ! j \<noteq> 0)"

text \<open>Element \<open>i\<close> passes the checks of one iteration of the outer loop.\<close>

definition hint_elem_ok :: "nat \<Rightarrow> byte list \<Rightarrow> nat \<Rightarrow> bool" where
  "hint_elem_ok Omega buf i =
     (\<not> hint_SOP Omega buf i < hint_prevSOP Omega buf i \<and>
      unat (hint_SOP Omega buf i) \<le> Omega \<and>
      (\<forall>j. unat (hint_prevSOP Omega buf i) \<le> j \<and> j < unat (hint_SOP Omega buf i) \<longrightarrow>
         (unat (hint_prevSOP Omega buf i) < j \<longrightarrow> buf ! (j - 1) < buf ! j)))"

subsection \<open>What \<open>UnpackHint\<close> has decoded when it returns\<close>

text \<open>The polynomial \<open>vi\<close> with coefficient \<open>buf[j]\<close> set to 1 for every position \<open>j\<close> in
  \<open>[a, b)\<close>, and the zero polynomial marked that way.\<close>

definition hint_mark :: "u32 list \<Rightarrow> byte list \<Rightarrow> nat \<Rightarrow> nat \<Rightarrow> u32 list" where
  "hint_mark vi buf a b =
     map (\<lambda>c. if \<exists>j \<in> set [a..<b]. unat (buf ! j) = c then 1 else vi ! c) [0..<length vi]"

definition hint_bits_of :: "byte list \<Rightarrow> nat \<Rightarrow> nat \<Rightarrow> u32 list" where
  "hint_bits_of buf a b =
     map (\<lambda>c. if \<exists>j \<in> set [a..<b]. unat (buf ! j) = c then 1 else 0) [0..<N]"

text \<open>The first position after \<open>a\<close> and before \<open>b\<close> whose index byte is not greater than
  its predecessor, or \<open>b\<close> when there is none: the positions \<open>[a, hint_stop buf a b)\<close> are
  the ones decoded from the range \<open>[a, b)\<close>.\<close>

definition hint_stop :: "byte list \<Rightarrow> nat \<Rightarrow> nat \<Rightarrow> nat" where
  "hint_stop buf a b =
     (case filter (\<lambda>j. buf ! j \<le> buf ! (j - 1)) [Suc a..<b] of [] \<Rightarrow> b | j # _ \<Rightarrow> j)"

text \<open>The switch-over point of element \<open>i\<close> is valid; element \<open>i\<close> is decoded without a
  violation; the content of element \<open>i\<close> once its iteration has run.\<close>

definition hint_SOP_ok :: "nat \<Rightarrow> byte list \<Rightarrow> nat \<Rightarrow> bool" where
  "hint_SOP_ok Omega buf i =
     (\<not> hint_SOP Omega buf i < hint_prevSOP Omega buf i \<and> unat (hint_SOP Omega buf i) \<le> Omega)"

definition hint_elem_pass :: "nat \<Rightarrow> byte list \<Rightarrow> nat \<Rightarrow> bool" where
  "hint_elem_pass Omega buf i =
     (hint_SOP_ok Omega buf i \<and>
      hint_stop buf (unat (hint_prevSOP Omega buf i)) (unat (hint_SOP Omega buf i))
        = unat (hint_SOP Omega buf i))"

definition hint_elem_out :: "nat \<Rightarrow> byte list \<Rightarrow> nat \<Rightarrow> u32 list" where
  "hint_elem_out Omega buf i =
     (if hint_SOP_ok Omega buf i
      then hint_bits_of buf (unat (hint_prevSOP Omega buf i))
             (hint_stop buf (unat (hint_prevSOP Omega buf i)) (unat (hint_SOP Omega buf i)))
      else replicate N 0)"

text \<open>The number of leading elements decoded without a violation, and the vector left in
  the receiver: the elements before the first violation hold the bits named by their whole
  index range, the element with the violation holds the bits decoded before it was found,
  and every later element is zero.\<close>

definition hint_first_fail :: "nat \<Rightarrow> nat \<Rightarrow> byte list \<Rightarrow> nat" where
  "hint_first_fail K Omega buf = length (takeWhile (hint_elem_pass Omega buf) [0..<K])"

definition hint_decoded_from :: "nat \<Rightarrow> nat \<Rightarrow> nat \<Rightarrow> byte list \<Rightarrow> u32 list list" where
  "hint_decoded_from i K Omega buf =
     map (\<lambda>i'. if i' \<le> i + length (takeWhile (hint_elem_pass Omega buf) [i..<K])
               then hint_elem_out Omega buf i' else replicate N 0) [i..<K]"

definition hint_decoded :: "nat \<Rightarrow> nat \<Rightarrow> byte list \<Rightarrow> u32 list list" where
  "hint_decoded K Omega buf =
     map (\<lambda>i. if i \<le> hint_first_fail K Omega buf
              then hint_elem_out Omega buf i else replicate N 0) [0..<K]"

text \<open>A buffer whose second switch-over point is below the first, after one index of the
  first polynomial has been decoded.\<close>

definition hint_partial_buf :: "byte list" where
  "hint_partial_buf = [5] @ replicate 95 0 @ [1, 0, 0, 0, 0]"

definition hint_good_buf :: "byte list" where
  "hint_good_buf = [56, 100, 255, 2, 23, 1] @ replicate 90 0 @ [2, 3, 3, 5, 6]"

definition hint_partial_out :: "u32 list list" where
  "hint_partial_out = (replicate 5 (replicate 256 0))[0 := (replicate 256 0)[5 := 1]]"

section \<open>Sampling: \<open>DeriveNoise\<close> and \<open>DeriveUniform\<close>\<close>

text \<open>The sampling file belongs to a package whose polynomials are arrays of \<open>N\<close> signed
  16-bit coefficients. The SHAKE functions of package \<open>sha3\<close> are not among the sources: a
  hash is a parameter that maps the absorbed bytes to its output stream, byte \<open>k\<close> of the
  output being \<open>shake input k\<close>. Successive \<open>Read\<close> calls continue the stream.\<close>

type_synonym i16 = "16 word"

text \<open>\<open>binary.LittleEndian.Uint64(b)\<close>, which panics on fewer than 8 bytes, and the slice
  expression \<open>buf[k:]\<close>, which panics when \<open>k\<close> exceeds the length.\<close>

definition Uint64 :: "byte list \<Rightarrow> error + u64" where
  "Uint64 b =
     (if length b < 8 then Inl IndexOutOfRange
      else Inr (ucast (b ! 0) OR push_bit 8 (ucast (b ! 1)) OR
                push_bit 16 (ucast (b ! 2)) OR push_bit 24 (ucast (b ! 3)) OR
                push_bit 32 (ucast (b ! 4)) OR push_bit 40 (ucast (b ! 5)) OR
                push_bit 48 (ucast (b ! 6)) OR push_bit 56 (ucast (b ! 7))))"

definition slice_from :: "byte list \<Rightarrow> nat \<Rightarrow> error + byte list" where
  "slice_from buf k = (if length buf < k then Inl IndexOutOfRange else Inr (drop k buf))"

subsection \<open>\<open>DeriveNoise3\<close>\<close>

text \<open>The loop \<open>for j := 0; j < 8; j++\<close>: eight coefficients from one 48-bit group.\<close>

function DeriveNoise3_coeffs :: "nat \<Rightarrow> nat \<Rightarrow> u64 \<Rightarrow> i16 list \<Rightarrow> error + (i16 list \<times> u64)" where
  "DeriveNoise3_coeffs i j d p =
     (if j < 8 then
        (let a = (ucast d :: i16) AND 7;
             d1 = drop_bit 3 d;
             b = (ucast d1 :: i16) AND 7;
             d2 = drop_bit 3 d1
         in if 8 * i + j < length p then DeriveNoise3_coeffs i (j + 1) d2 (p[8 * i + j := a - b])
            else Inl IndexOutOfRange)
      else Inr (p, d))"
  by pat_completeness auto
termination
  by (relation "measure (\<lambda>(i, j, d, p). 8 - j)") auto

declare DeriveNoise3_coeffs.simps [simp del]

text \<open>The loop \<open>for i := 0; i < 32; i++\<close> over the 6-byte groups of the buffer.\<close>

function DeriveNoise3_groups :: "byte list \<Rightarrow> nat \<Rightarrow> i16 list \<Rightarrow> error + i16 list" where
  "DeriveNoise3_groups buf i p =
     (if i < 32 then
        (case slice_from buf (6 * i) of
           Inl e \<Rightarrow> Inl e
         | Inr b \<Rightarrow>
            (case Uint64 b of
               Inl e \<Rightarrow> Inl e
             | Inr t \<Rightarrow>
                (let d0 = t AND 0x249249249249;
                     d1 = d0 + (drop_bit 1 t AND 0x249249249249);
                     d2 = d1 + (drop_bit 2 t AND 0x249249249249)
                 in case DeriveNoise3_coeffs i 0 d2 p of
                      Inl e \<Rightarrow> Inl e
                    | Inr (p', d') \<Rightarrow> DeriveNoise3_groups buf (i + 1) p')))
      else Inr p)"
  by pat_completeness auto
termination
  by (relation "measure (\<lambda>(buf, i, p). 32 - i)") auto

declare DeriveNoise3_groups.simps [simp del]

text \<open>\<open>DeriveNoise3\<close>: 192 bytes of SHAKE-256 output on \<open>seed \<parallel> nonce\<close> are read into a
  zeroed buffer of 194 bytes.\<close>

definition DeriveNoise3 :: "(byte list \<Rightarrow> nat \<Rightarrow> byte) \<Rightarrow> i16 list \<Rightarrow> byte list \<Rightarrow> byte \<Rightarrow> error + i16 list" where
  "DeriveNoise3 shake256 p seed nonce =
     (let buf = map (shake256 (seed @ [nonce])) [0..<192] @ [0, 0]
      in DeriveNoise3_groups buf 0 p)"

subsection \<open>\<open>DeriveNoise2\<close>\<close>

text \<open>The loop \<open>for j := 0; j < 16; j++\<close>: sixteen coefficients from one 64-bit word.\<close>

function DeriveNoise2_coeffs :: "nat \<Rightarrow> nat \<Rightarrow> u64 \<Rightarrow> i16 list \<Rightarrow> error + (i16 list \<times> u64)" where
  "DeriveNoise2_coeffs i j d p =
     (if j < 16 then
        (let a = (ucast d :: i16) AND 3;
             d1 = drop_bit 2 d;
             b = (ucast d1 :: i16) AND 3;
             d2 = drop_bit 2 d1
         in if 16 * i + j < length p then DeriveNoise2_coeffs i (j + 1) d2 (p[16 * i + j := a - b])
            else Inl IndexOutOfRange)
      else Inr (p, d))"
  by pat_completeness auto
termination
  by (relation "measure (\<lambda>(i, j, d, p). 16 - j)") auto

declare DeriveNoise2_coeffs.simps [simp del]

text \<open>The loop \<open>for i := 0; i < 16; i++\<close> over the 8-byte words of the buffer.\<close>

function DeriveNoise2_groups :: "byte list \<Rightarrow> nat \<Rightarrow> i16 list \<Rightarrow> error + i16 list" where
  "DeriveNoise2_groups buf i p =
     (if i < 16 then
        (case slice_from buf (8 * i) of
           Inl e \<Rightarrow> Inl e
         | Inr b \<Rightarrow>
            (case Uint64 b of
               Inl e \<Rightarrow> Inl e
             | Inr t \<Rightarrow>
                (let d0 = t AND 0x5555555555555555;
                     d1 = d0 + (drop_bit 1 t AND 0x5555555555555555)
                 in case DeriveNoise2_coeffs i 0 d1 p of
                      Inl e \<Rightarrow> Inl e
                    | Inr (p', d') \<Rightarrow> DeriveNoise2_groups buf (i + 1) p')))
      else Inr p)"
  by pat_completeness auto
termination
  by (relation "measure (\<lambda>(buf, i, p). 16 - i)") auto

declare DeriveNoise2_groups.simps [simp del]

definition DeriveNoise2 :: "(byte list \<Rightarrow> nat \<Rightarrow> byte) \<Rightarrow> i16 list \<Rightarrow> byte list \<Rightarrow> byte \<Rightarrow> error + i16 list" where
  "DeriveNoise2 shake256 p seed nonce =
     (let buf = map (shake256 (seed @ [nonce])) [0..<128]
      in DeriveNoise2_groups buf 0 p)"

subsection \<open>\<open>DeriveNoise\<close>\<close>

text \<open>The \<open>switch eta\<close> with its \<open>default: panic("unsupported eta")\<close>.\<close>

definition DeriveNoise :: "(byte list \<Rightarrow> nat \<Rightarrow> byte) \<Rightarrow> i16 list \<Rightarrow> byte list \<Rightarrow> byte \<Rightarrow> int \<Rightarrow> error + i16 list" where
  "DeriveNoise shake256 p seed nonce eta =
     (if eta = 2 then DeriveNoise2 shake256 p seed nonce
      else if eta = 3 then DeriveNoise3 shake256 p seed nonce
      else Inl UnsupportedEta)"

text \<open>A stand-in hash stream for evaluating the samplers on a concrete input.\<close>

definition counting_stream :: "byte list \<Rightarrow> nat \<Rightarrow> byte" where
  "counting_stream input k = of_nat (7 * k + length input)"

subsection \<open>\<open>DeriveUniform\<close>\<close>

text \<open>The modulus \<open>Q\<close> of the sampling package is not among the sources; the parameter
  \<open>Q\<close> is the value of \<open>uint16(Q)\<close>. A candidate \<open>t\<close> is stored at \<open>p[i]\<close> and counted when it
  is below \<open>Q\<close>.\<close>

definition DeriveUniform_accept :: "u16 \<Rightarrow> u16 \<Rightarrow> nat \<times> i16 list \<Rightarrow> nat \<times> i16 list" where
  "DeriveUniform_accept Q t s =
     (case s of (i, p) \<Rightarrow> if t < Q then (i + 1, p[i := ucast t]) else (i, p))"

text \<open>The two 12-bit candidates \<open>t1\<close> and \<open>t2\<close>, computed from the bytes \<open>buf[j]\<close>,
  \<open>buf[j+1]\<close> and from \<open>buf[j+1]\<close>, \<open>buf[j+2]\<close>.\<close>

definition DeriveUniform_t1 :: "byte \<Rightarrow> byte \<Rightarrow> u16" where
  "DeriveUniform_t1 b0 b1 = (ucast b0 OR push_bit 8 (ucast b1)) AND 0xfff"

definition DeriveUniform_t2 :: "byte \<Rightarrow> byte \<Rightarrow> u16" where
  "DeriveUniform_t2 b1 b2 = (ucast (drop_bit 4 b1) OR push_bit 4 (ucast b2)) AND 0xfff"

text \<open>The loop \<open>for j := 0; j < 168; j += 3\<close> over one block, with its two \<open>break\<close>s when
  \<open>i\<close> reaches \<open>N\<close>. The index \<open>i\<close> is below \<open>N\<close> whenever \<open>p[i]\<close> is written.\<close>

function DeriveUniform_block :: "u16 \<Rightarrow> byte list \<Rightarrow> nat \<Rightarrow> nat \<times> i16 list \<Rightarrow> nat \<times> i16 list" where
  "DeriveUniform_block Q buf j s =
     (if j < 168 then
        (let t1 = DeriveUniform_t1 (buf ! j) (buf ! (j + 1));
             t2 = DeriveUniform_t2 (buf ! (j + 1)) (buf ! (j + 2));
             s1 = DeriveUniform_accept Q t1 s
         in if t1 < Q \<and> fst s1 = N then s1
            else
              (let s2 = DeriveUniform_accept Q t2 s1
               in if t2 < Q \<and> fst s2 = N then s2
                  else DeriveUniform_block Q buf (j + 3) s2))
      else s)"
  by pat_completeness auto
termination
  by (relation "measure (\<lambda>(Q, buf, j, s). 168 - j)") auto

declare DeriveUniform_block.simps [simp del]

text \<open>The outer \<open>for { ... }\<close>: block \<open>b\<close> of the stream is read, processed, and the loop
  ends when \<open>i = N\<close>. It need not terminate: \<open>None\<close> is the loop that runs forever.\<close>

definition stream_block :: "(nat \<Rightarrow> byte) \<Rightarrow> nat \<Rightarrow> byte list" where
  "stream_block stream b = map (\<lambda>k. stream (168 * b + k)) [0..<168]"

partial_function (option) DeriveUniform_blocks :: "u16 \<Rightarrow> (nat \<Rightarrow> byte) \<Rightarrow> nat \<Rightarrow> nat \<times> i16 list
    \<Rightarrow> (nat \<times> i16 list) option" where
  "DeriveUniform_blocks Q stream b s =
     (let s' = DeriveUniform_block Q (stream_block stream b) 0 s
      in if fst s' = N then Some s' else DeriveUniform_blocks Q stream (b + 1) s')"

declare DeriveUniform_blocks.simps [code]

text \<open>\<open>DeriveUniform\<close>: SHAKE-128 absorbs \<open>seed \<parallel> x \<parallel> y\<close>; the result is the new value of the
  receiver, or \<open>None\<close> when the call never returns. \<open>Tangle\<close> belongs to a file that is not
  among the sources and is a parameter.\<close>

definition DeriveUniform :: "u16 \<Rightarrow> (byte list \<Rightarrow> nat \<Rightarrow> byte) \<Rightarrow> (i16 list \<Rightarrow> i16 list)
    \<Rightarrow> i16 list \<Rightarrow> byte list \<Rightarrow> byte \<Rightarrow> byte \<Rightarrow> i16 list option" where
  "DeriveUniform Q shake128 Tangle p seed x y =
     (case DeriveUniform_blocks Q (shake128 (seed @ [x, y])) 0 (0, p) of
        None \<Rightarrow> None
      | Some (i, p') \<Rightarrow> Some (Tangle p'))"

text \<open>The candidates of block \<open>b\<close> in the order the inner loop inspects them, and the
  candidates of the first \<open>n\<close> blocks that pass the test \<open>t < Q\<close>.\<close>

definition block_candidates :: "(nat \<Rightarrow> byte) \<Rightarrow> nat \<Rightarrow> u16 list" where
  "block_candidates stream b =
     concat (map (\<lambda>m. [DeriveUniform_t1 (stream (168 * b + 3 * m)) (stream (168 * b + 3 * m + 1)),
                        DeriveUniform_t2 (stream (168 * b + 3 * m + 1)) (stream (168 * b + 3 * m + 2))])
                 [0..<56])"

definition accepted :: "u16 \<Rightarrow> (nat \<Rightarrow> byte) \<Rightarrow> nat \<Rightarrow> u16 list" where
  "accepted Q stream n = filter (\<lambda>t. t < Q) (concat (map (block_candidates stream) [0..<n]))"

text \<open>The candidates of a block buffer from group \<open>m\<close> (offset \<open>3 * m\<close>) on, and the loop
  invariant of the sampler: \<open>i\<close> candidates have been accepted, and they are the first \<open>i\<close>
  coefficients.\<close>

definition buf_candidates :: "byte list \<Rightarrow> nat \<Rightarrow> u16 list" where
  "buf_candidates buf m =
     concat (map (\<lambda>m. [DeriveUniform_t1 (buf ! (3 * m)) (buf ! (3 * m + 1)),
                        DeriveUniform_t2 (buf ! (3 * m + 1)) (buf ! (3 * m + 2))]) [m..<56])"

definition DeriveUniform_holds :: "u16 list \<Rightarrow> nat \<times> i16 list \<Rightarrow> bool" where
  "DeriveUniform_holds A s =
     (fst s = length A \<and> length (snd s) = N \<and> take (fst s) (snd s) = map ucast A)"

section \<open>Rounding primitives\<close>

text \<open>The functions \<open>power2round\<close> and \<open>decompose\<close> are defined in files that are not among the
  sources (only their tests are); the modulus \<open>Q\<close> and the parameters \<open>D\<close> and \<open>Gamma2\<close> are
  parameters of the model.\<close>

text \<open>The representative of \<open>a\<close> modulo \<open>m\<close> in the window \<open>(-m/2, m/2]\<close>.\<close>

definition centered_mod :: "int \<Rightarrow> int \<Rightarrow> int" where
  "centered_mod a m = (let r = a mod m in if m div 2 < r then r - m else r)"

text \<open>Modelled from the spec: \<open>power2round\<close>, which is missing from the sources. For \<open>a\<close> in
  \<open>[0, Q)\<close> it finds the decomposition of \<open>a\<close> as \<open>a0 + 2\<^sup>D \<cdot> a1\<close> with \<open>a0\<close> in
  \<open>(-2\<^sup>D\<^sup>-\<^sup>1, 2\<^sup>D\<^sup>-\<^sup>1]\<close> and returns \<open>a0 + Q\<close> and \<open>a1\<close>.\<close>

definition power2round :: "int \<Rightarrow> nat \<Rightarrow> int \<Rightarrow> int \<times> int" where
  "power2round Q D a =
     (let a0 = centered_mod a (2 ^ D);
          a1 = (a - a0) div 2 ^ D
      in (a0 + Q, a1))"

text \<open>Modelled from the spec: \<open>decompose\<close>, which is missing from the sources. It has the shape
  of \<open>power2round\<close> but splits by \<open>Alpha = 2 \<cdot> Gamma2\<close>, with the boundary case: if the naive
  \<open>a1\<close> equals \<open>(Q - 1) / Alpha\<close>, it is forced to 0 and \<open>a0\<close> is decremented by 1.\<close>

definition decompose_naive :: "int \<Rightarrow> int \<Rightarrow> int \<times> int" where
  "decompose_naive Gamma2 a =
     (let a0 = centered_mod a (2 * Gamma2);
          a1 = (a - a0) div (2 * Gamma2)
      in (a0, a1))"

definition decompose :: "int \<Rightarrow> int \<Rightarrow> int \<Rightarrow> int \<times> int" where
  "decompose Q Gamma2 a =
     (case decompose_naive Gamma2 a of
        (a0, a1) \<Rightarrow>
          if a1 = (Q - 1) div (2 * Gamma2) then (a0 - 1 + Q, 0) else (a0 + Q, a1))"

section \<open>Theorems\<close>

lemma drop_bit_60_signs:
  "drop_bit 60 (s :: u64) \<noteq> 0 \<longleftrightarrow> (\<exists>k. 60 \<le> k \<and> k < 64 \<and> bit s k)"
proof
  assume "drop_bit 60 s \<noteq> 0"
  then obtain n where "bit (drop_bit 60 s) n"
    by (auto simp: bit_eq_iff)
  then have "bit s (60 + n)" by (simp add: bit_drop_bit_eq)
  moreover from this have "60 + n < 64" by (auto dest: bit_imp_le_length)
  ultimately show "\<exists>k. 60 \<le> k \<and> k < 64 \<and> bit s k" by (intro exI [of _ "60 + n"]) simp
next
  assume "\<exists>k. 60 \<le> k \<and> k < 64 \<and> bit s k"
  then obtain k where k: "60 \<le> k" "bit s k" by blast
  then have "bit (drop_bit 60 s) (k - 60)" by (simp add: bit_drop_bit_eq)
  then show "drop_bit 60 s \<noteq> 0" by auto
qed

subsection \<open>Loops that write consecutive blocks\<close>

lemma store_slice:
  "i + length vs \<le> length a \<Longrightarrow> store a i vs = take i a @ vs @ drop (i + length vs) a"
proof (induction vs arbitrary: a i)
  case Nil
  then show ?case by simp
next
  case (Cons v vs)
  have i: "i < length a" using Cons.prems by simp
  have "store (a[i := v]) (i + 1) vs
      = take (i + 1) (a[i := v]) @ vs @ drop (i + 1 + length vs) (a[i := v])"
    using Cons.prems by (intro Cons.IH) simp
  also have "take (i + 1) (a[i := v]) = take i a @ [v]"
    using i by (simp add: take_Suc_conv_app_nth)
  also have "drop (i + 1 + length vs) (a[i := v]) = drop (i + length (v # vs)) a"
    by simp
  finally show ?case by simp
qed

lemma length_store: "length (store a i vs) = length a"
  by (induction vs arbitrary: a i) simp_all

lemma block_loop:
  fixes L :: "nat \<Rightarrow> nat \<Rightarrow> 'a list \<Rightarrow> 'a list"
  assumes eq: "\<And>i j a. L i j a = (if i < S then L (i + di) (j + dj) (store a (oi i j) (blk i j)) else a)"
    and len: "\<And>i j. length (blk i j) = ol"
    and oi: "\<And>k. oi (di * k) (dj * k) = ol * k"
    and S: "S = di * nb" "0 < di"
  shows "k \<le> nb \<Longrightarrow> ol * nb \<le> length a \<Longrightarrow>
         L (di * k) (dj * k) a =
           take (ol * k) a @ concat (map (\<lambda>m. blk (di * m) (dj * m)) [k..<nb]) @ drop (ol * nb) a"
proof (induction "nb - k" arbitrary: k a)
  case 0
  then have k: "k = nb" by simp
  have "L (di * k) (dj * k) a = a"
    by (subst eq) (simp add: S k)
  then show ?case by (simp add: k)
next
  case (Suc n)
  then have k: "k < nb" by simp
  define b where "b = blk (di * k) (dj * k)"
  define a' where "a' = store a (ol * k) b"
  have lb: "length b = ol" by (simp add: b_def len)
  have "ol * k + ol = ol * Suc k" by simp
  also have "\<dots> \<le> ol * nb" using k by (intro mult_le_mono2) simp
  finally have fit: "ol * k + ol \<le> ol * nb" .
  then have fit': "ol * k + length b \<le> length a" using Suc.prems(2) lb by simp
  have a': "a' = take (ol * k) a @ b @ drop (ol * k + ol) a"
    unfolding a'_def using store_slice [OF fit'] lb by simp
  have la': "length a' = length a" by (simp add: a'_def length_store)
  have lt: "length (take (ol * k) a) = ol * k" using fit Suc.prems(2) by simp
  have "di * k < S" using k S by simp
  then have "L (di * k) (dj * k) a = L (di * k + di) (dj * k + dj) a'"
    by (subst eq) (simp add: a'_def b_def oi)
  also have "\<dots> = L (di * Suc k) (dj * Suc k) a'"
    by (simp only: mult_Suc_right add.commute)
  also have "\<dots> = take (ol * Suc k) a' @ concat (map (\<lambda>m. blk (di * m) (dj * m)) [Suc k..<nb])
        @ drop (ol * nb) a'"
    using Suc.hyps(2) k Suc.prems(2) la' by (intro Suc.hyps(1)) simp_all
  also have "take (ol * Suc k) a' = take (ol * k) a @ b"
    using lt lb by (simp add: a')
  also have "drop (ol * nb) a' = drop (ol * nb) a"
  proof -
    have 1: "length (take (ol * k) a) \<le> ol * nb" using lt fit by linarith
    have 2: "length b \<le> ol * nb - length (take (ol * k) a)" using lt lb fit by linarith
    have 3: "ol * nb - length (take (ol * k) a) - length b + (ol * k + ol) = ol * nb"
      using lt lb fit by linarith
    have "drop (ol * nb) a' = drop (ol * nb - length (take (ol * k) a) - length b) (drop (ol * k + ol) a)"
      unfolding a' using 1 2 by (simp only: drop_append drop_all append_Nil)
    also have "\<dots> = drop (ol * nb) a" by (simp only: drop_drop 3)
    finally show ?thesis .
  qed
  finally have "L (di * k) (dj * k) a = (take (ol * k) a @ b)
      @ concat (map (\<lambda>m. blk (di * m) (dj * m)) [Suc k..<nb]) @ drop (ol * nb) a" .
  moreover have "[k..<nb] = k # [Suc k..<nb]" using k by (simp add: upt_conv_Cons)
  ultimately show ?case by (simp add: b_def)
qed

lemma PackT1_loop_concat:
  assumes "PolyT1Size \<le> length buf"
  shows "PackT1_loop p 0 0 buf =
           concat (map (\<lambda>m. PackT1_block p (8 * m)) [0..<32]) @ drop PolyT1Size buf"
proof -
  have "PackT1_loop p (9 * 0) (8 * 0) buf =
      take (9 * 0) buf @ concat (map (\<lambda>m. PackT1_block p (8 * m)) [0..<32]) @ drop (9 * 32) buf"
    using assms
    by (intro block_loop [where L = "PackT1_loop p" and S = PolyT1Size and oi = "\<lambda>i j. i"
          and blk = "\<lambda>i j. PackT1_block p j"])
      (simp_all add: PackT1_loop.simps [of p] PackT1_block_def PolyT1Size_def N_def)
  then show ?thesis by (simp add: PolyT1Size_def N_def)
qed

lemma UnpackT1_loop_concat:
  assumes "N \<le> length p"
  shows "UnpackT1_loop buf 0 0 p =
           concat (map (\<lambda>m. UnpackT1_block buf (9 * m)) [0..<32]) @ drop N p"
proof -
  have "UnpackT1_loop buf (9 * 0) (8 * 0) p =
      take (8 * 0) p @ concat (map (\<lambda>m. UnpackT1_block buf (9 * m)) [0..<32]) @ drop (8 * 32) p"
    using assms
    by (intro block_loop [where L = "UnpackT1_loop buf" and S = PolyT1Size and oi = "\<lambda>i j. j"
          and blk = "\<lambda>i j. UnpackT1_block buf i"])
      (simp_all add: UnpackT1_loop.simps [of buf] UnpackT1_block_def PolyT1Size_def N_def)
  then show ?thesis by (simp add: N_def)
qed

lemma length_concat_uniform:
  "(\<And>m. length (f m) = bs) \<Longrightarrow> length (concat (map f [0..<n])) = bs * n"
  by (induction n) simp_all

lemma slice_concat_uniform:
  assumes len: "\<And>m. length (f m) = bs" and m: "m < nb"
  shows "take bs (drop (bs * m) (concat (map f [0..<nb]) @ rest)) = f m"
proof -
  have "[0..<nb] = [0..<m] @ m # [Suc m..<nb]"
    using m by (metis less_imp_add_positive upt_add_eq_append upt_conv_Cons zero_le add_0)
  then have "concat (map f [0..<nb]) @ rest
      = concat (map f [0..<m]) @ f m @ (concat (map f [Suc m..<nb]) @ rest)"
    by simp
  moreover have "length (concat (map f [0..<m])) = bs * m"
    using length_concat_uniform [of f bs m] len by simp
  ultimately show ?thesis using len [of m] by simp
qed

lemma concat_slices:
  "concat (map (\<lambda>m. take cs (drop (cs * m) p)) [0..<nb]) = take (cs * nb) p"
proof (induction nb)
  case 0
  show ?case by simp
next
  case (Suc nb)
  have "take (cs * Suc nb) p = take (cs * nb + cs) p" by (simp add: add.commute)
  also have "\<dots> = take (cs * nb) p @ take cs (drop (cs * nb) p)" by (rule take_add)
  finally show ?case using Suc by (simp add: add.commute)
qed

lemma blocks_roundtrip:
  fixes pblk :: "'c list \<Rightarrow> nat \<Rightarrow> 'b list" and ublk :: "'b list \<Rightarrow> nat \<Rightarrow> 'c list"
  assumes B: "B = concat (map (\<lambda>m. pblk p (cs * m)) [0..<nb]) @ rest"
    and plen: "\<And>j. length (pblk p j) = bs"
    and slice: "\<And>i. i + bs \<le> length B \<Longrightarrow> ublk B i = ublk (take bs (drop i B)) 0"
    and rt: "\<And>m. m < nb \<Longrightarrow> ublk (pblk p (cs * m)) 0 = take cs (drop (cs * m) p)"
    and lp: "length p = cs * nb"
  shows "concat (map (\<lambda>m. ublk B (bs * m)) [0..<nb]) = p"
proof -
  have lB: "bs * nb \<le> length B"
    using length_concat_uniform [of "\<lambda>m. pblk p (cs * m)" bs nb] plen by (simp add: B)
  have "ublk B (bs * m) = take cs (drop (cs * m) p)" if m: "m < nb" for m
  proof -
    have "bs * m + bs = bs * Suc m" by simp
    also have "\<dots> \<le> bs * nb" using m by (intro mult_le_mono2) simp
    finally have "bs * m + bs \<le> length B" using lB by simp
    then have "ublk B (bs * m) = ublk (take bs (drop (bs * m) B)) 0" by (rule slice)
    also have "take bs (drop (bs * m) B) = pblk p (cs * m)"
      unfolding B using plen m by (intro slice_concat_uniform) simp_all
    finally show ?thesis using rt [OF m] by simp
  qed
  then have "concat (map (\<lambda>m. ublk B (bs * m)) [0..<nb])
      = concat (map (\<lambda>m. take cs (drop (cs * m) p)) [0..<nb])"
    by (intro arg_cong [where f = concat] map_cong) simp_all
  then show ?thesis by (simp add: concat_slices lp)
qed

lemma word32_eqI: "list_all (\<lambda>n. bit a n = bit b n) [0..<32] \<Longrightarrow> (a :: u32) = b"
  by (rule bit_word_eqI) (simp add: list_all_iff)

lemma upt_Suc_0_numeral:
  "[Suc 0..<numeral n] = (if (1::nat) < numeral n then 1 # [2..<numeral n] else [])"
  by (subst upt_rec) (simp add: numeral_2_eq_2)

lemmas bits_eval = bit_simps upt_rec [of 0] upt_Suc_0_numeral
  numeral_2_eq_2 [symmetric] numeral_3_eq_3 [symmetric]

lemma high_bits: "(c :: u32) < 2 ^ k \<Longrightarrow> k \<le> n \<Longrightarrow> bit c n = False"
  by (metis bit_take_bit_iff less_mask_eq take_bit_eq_mask not_le)

lemma mask_511: "(0x1ff :: u32) = mask 9"
  by (simp add: mask_eq_exp_minus_1)

lemma list8:
  "length xs = 8 \<Longrightarrow> xs = [xs ! 0, xs ! 1, xs ! 2, xs ! 3, xs ! 4, xs ! 5, xs ! 6, xs ! 7]"
  by (rule nth_equalityI) (auto simp: nth_Cons' less_Suc_eq eval_nat_numeral)

lemma T1_fields:
  fixes c0 c1 c2 c3 c4 c5 c6 c7 :: u32
  assumes "c0 < 2 ^ 9" "c1 < 2 ^ 9" "c2 < 2 ^ 9" "c3 < 2 ^ 9"
    "c4 < 2 ^ 9" "c5 < 2 ^ 9" "c6 < 2 ^ 9" "c7 < 2 ^ 9"
  shows "UnpackT1_block (PackT1_block [c0, c1, c2, c3, c4, c5, c6, c7] 0) 0
         = [c0, c1, c2, c3, c4, c5, c6, c7]"
proof -
  note hb = assms [THEN high_bits]
  show ?thesis
    unfolding UnpackT1_block_def PackT1_block_def mask_511
    apply (simp only: list.inject simp_thms)
    apply (intro conjI)
    apply (rule word32_eqI, simp add: bits_eval hb del: push_bit_Suc drop_bit_Suc)+
    done
qed

subsection \<open>Round trip of the T1 codec\<close>

lemma PackT1_loop_length:
  "PolyT1Size \<le> length buf \<Longrightarrow> length (PackT1_loop p 0 0 buf) = length buf"
  by (simp add: PackT1_loop_concat length_concat_uniform [where bs = 9] PackT1_block_def PolyT1Size_def N_def)

lemma PackT1_block_slice:
  "j + 8 \<le> length p \<Longrightarrow> PackT1_block p j = PackT1_block (take 8 (drop j p)) 0"
  by (simp add: PackT1_block_def)

lemma UnpackT1_block_slice:
  "i + 9 \<le> length B \<Longrightarrow> UnpackT1_block B i = UnpackT1_block (take 9 (drop i B)) 0"
  by (simp add: UnpackT1_block_def)

lemma T1_block_roundtrip:
  assumes "j + 8 \<le> length p" "\<forall>c \<in> set p. c < 2 ^ 9"
  shows "UnpackT1_block (PackT1_block p j) 0 = take 8 (drop j p)"
proof -
  define xs where "xs = take 8 (drop j p)"
  have l: "length xs = 8" using assms(1) by (simp add: xs_def)
  have "set xs \<subseteq> set p" unfolding xs_def
    by (meson set_take_subset set_drop_subset subset_trans)
  then have r: "xs ! t < 2 ^ 9" if "t < 8" for t
    using assms(2) l that by (metis nth_mem subsetD)
  have "UnpackT1_block (PackT1_block [xs ! 0, xs ! 1, xs ! 2, xs ! 3, xs ! 4, xs ! 5, xs ! 6, xs ! 7] 0) 0
      = [xs ! 0, xs ! 1, xs ! 2, xs ! 3, xs ! 4, xs ! 5, xs ! 6, xs ! 7]"
    by (intro T1_fields r) simp_all
  then have "UnpackT1_block (PackT1_block xs 0) 0 = xs"
    using list8 [OF l] by simp
  then show ?thesis
    using PackT1_block_slice [OF assms(1)] by (simp add: xs_def)
qed

lemma T1_roundtrip:
  assumes p: "length p = N" "\<forall>c \<in> set p. T1_range c"
    and buf: "PolyT1Size \<le> length buf" and p': "length p' = N"
  shows "\<exists>B. PackT1 p buf = Inr B \<and> UnpackT1 p' B = Inr p"
proof -
  define B where "B = PackT1_loop p 0 0 buf"
  have B: "B = concat (map (\<lambda>m. PackT1_block p (8 * m)) [0..<32]) @ drop PolyT1Size buf"
    unfolding B_def using buf by (rule PackT1_loop_concat)
  have lB: "length B = length buf" unfolding B_def using buf by (rule PackT1_loop_length)
  have "UnpackT1_loop B 0 0 p' = concat (map (\<lambda>m. UnpackT1_block B (9 * m)) [0..<32]) @ drop N p'"
    using p' by (intro UnpackT1_loop_concat) simp
  also have "concat (map (\<lambda>m. UnpackT1_block B (9 * m)) [0..<32]) = p"
  proof (rule blocks_roundtrip [where pblk = PackT1_block and cs = 8, OF B])
    show "length (PackT1_block p j) = 9" for j by (simp add: PackT1_block_def)
    show "UnpackT1_block B i = UnpackT1_block (take 9 (drop i B)) 0" if "i + 9 \<le> length B" for i
      using that by (rule UnpackT1_block_slice)
    show "UnpackT1_block (PackT1_block p (8 * m)) 0 = take 8 (drop (8 * m) p)" if "m < 32" for m
      using that p by (intro T1_block_roundtrip) (simp_all add: N_def T1_range_def)
    show "length p = 8 * 32" using p by (simp add: N_def)
  qed
  finally have "UnpackT1_loop B 0 0 p' = p" using p' by simp
  then show ?thesis
    using buf lB by (simp add: PackT1_def UnpackT1_def B_def)
qed


subsection \<open>Round trip of the T0 codec\<close>

lemma uint_word_of_int_nonneg:
  "0 \<le> k \<Longrightarrow> k < 2 ^ 32 \<Longrightarrow> uint (word_of_int k :: u32) = k"
  by (simp add: uint_word_of_int take_bit_eq_mod)

lemma uint_word_of_int_neg:
  "- (2 ^ 32) \<le> k \<Longrightarrow> k < 0 \<Longrightarrow> uint (word_of_int k :: u32) = k + 2 ^ 32"
proof -
  assume a: "- (2 ^ 32) \<le> k" "k < 0"
  have "uint (word_of_int k :: u32) = k mod 2 ^ 32"
    by (simp add: uint_word_of_int take_bit_eq_mod)
  also have "k mod 2 ^ 32 = (k + 2 ^ 32) mod 2 ^ 32" by simp
  also have "\<dots> = k + 2 ^ 32" using a by (intro mod_pos_pos_trivial) simp_all
  finally show ?thesis .
qed

lemma T0_local_small:
  assumes D: "1 \<le> D" "D \<le> 14" and r: "T0_range Q D c"
  shows "Q + push_bit (D - 1) 1 - c < 2 ^ 14"
proof -
  define k where "k = uint Q + 2 ^ (D - 1) - uint c"
  have k0: "0 \<le> k" using r by (simp add: k_def T0_range_def)
  have "k < 2 ^ (D - 1) + 2 ^ (D - 1)" using r by (simp add: k_def T0_range_def)
  also have "\<dots> = (2 :: int) ^ D" using D(1) by (cases D) simp_all
  also have "\<dots> \<le> 2 ^ 14" using D(2) by (intro power_increasing) simp_all
  finally have k1: "k < 2 ^ 14" .
  have w: "Q + push_bit (D - 1) 1 - c = word_of_int k"
    by (simp add: k_def push_bit_eq_mult)
  have "uint (word_of_int k :: u32) = k" using k0 k1 by (intro uint_word_of_int_nonneg) simp_all
  then have "uint (Q + push_bit (D - 1) 1 - c) < uint (2 ^ 14 :: u32)"
    using k1 w by simp
  then show ?thesis by (simp only: word_less_def)
qed

lemma mask_16383: "(0x3fff :: u32) = mask 14"
  by (simp add: mask_eq_exp_minus_1)

lemma T0_fields:
  fixes p0 p1 p2 p3 :: u32
  assumes "p0 < 2 ^ 14" "p1 < 2 ^ 14" "p2 < 2 ^ 14" "p3 < 2 ^ 14"
  shows "UnpackT0_block Q D (PackT0_bytes p0 p1 p2 p3) 0
         = [Q + push_bit (D - 1) 1 - p0, Q + push_bit (D - 1) 1 - p1,
            Q + push_bit (D - 1) 1 - p2, Q + push_bit (D - 1) 1 - p3]"
proof -
  note hb = assms [THEN high_bits]
  show ?thesis
    unfolding UnpackT0_block_def PackT0_bytes_def mask_16383
    apply (simp only: list.inject simp_thms)
    apply (intro conjI)
    apply (rule arg_cong [where f = "\<lambda>x. Q + push_bit (D - 1) 1 - x"], rule word32_eqI,
        simp add: bits_eval hb del: push_bit_Suc drop_bit_Suc)+
    done
qed

lemma take_drop_nths:
  "j + n \<le> length p \<Longrightarrow> take n (drop j p) = map (\<lambda>t. p ! (j + t)) [0..<n]"
  by (rule nth_equalityI) simp_all

lemma T0_block_roundtrip:
  assumes j: "j + 4 \<le> length p" and r: "\<forall>c \<in> set p. T0_range Q D c"
    and D: "1 \<le> D" "D \<le> 14"
  shows "UnpackT0_block Q D (PackT0_block Q D p j) 0 = take 4 (drop j p)"
proof -
  have s: "Q + push_bit (D - 1) 1 - p ! (j + t) < 2 ^ 14" if "t < 4" for t
  proof -
    have "p ! (j + t) \<in> set p" using j that by (intro nth_mem) simp
    then show ?thesis using r D by (intro T0_local_small) simp_all
  qed
  have "UnpackT0_block Q D (PackT0_block Q D p j) 0
      = [p ! j, p ! (j + 1), p ! (j + 2), p ! (j + 3)]"
    unfolding PackT0_block_def Let_def
    using s [of 0] s [of 1] s [of 2] s [of 3] by (subst T0_fields) simp_all
  also have "\<dots> = take 4 (drop j p)"
    using take_drop_nths [OF j] by (simp add: upt_rec [of 0] upt_Suc_0_numeral)
  finally show ?thesis .
qed

lemma length_PackT0_block: "length (PackT0_block Q D p j) = 7"
  by (simp add: PackT0_block_def PackT0_bytes_def Let_def)

lemma PackT0_loop_concat:
  assumes "PolyT0Size \<le> length buf"
  shows "PackT0_loop Q D p 0 0 buf =
           concat (map (\<lambda>m. PackT0_block Q D p (4 * m)) [0..<64]) @ drop PolyT0Size buf"
proof -
  have "PackT0_loop Q D p (7 * 0) (4 * 0) buf =
      take (7 * 0) buf @ concat (map (\<lambda>m. PackT0_block Q D p (4 * m)) [0..<64]) @ drop (7 * 64) buf"
    using assms
    by (intro block_loop [where L = "PackT0_loop Q D p" and S = PolyT0Size and oi = "\<lambda>i j. i"
          and blk = "\<lambda>i j. PackT0_block Q D p j"])
      (simp_all add: PackT0_loop.simps [of Q D p] length_PackT0_block PolyT0Size_def N_def)
  then show ?thesis by (simp add: PolyT0Size_def N_def)
qed

lemma UnpackT0_loop_concat:
  assumes "N \<le> length p"
  shows "UnpackT0_loop Q D buf 0 0 p =
           concat (map (\<lambda>m. UnpackT0_block Q D buf (7 * m)) [0..<64]) @ drop N p"
proof -
  have "UnpackT0_loop Q D buf (7 * 0) (4 * 0) p =
      take (4 * 0) p @ concat (map (\<lambda>m. UnpackT0_block Q D buf (7 * m)) [0..<64]) @ drop (4 * 64) p"
    using assms
    by (intro block_loop [where L = "UnpackT0_loop Q D buf" and S = PolyT0Size and oi = "\<lambda>i j. j"
          and blk = "\<lambda>i j. UnpackT0_block Q D buf i"])
      (simp_all add: UnpackT0_loop.simps [of Q D buf] UnpackT0_block_def PolyT0Size_def N_def)
  then show ?thesis by (simp add: N_def)
qed

lemma PackT0_loop_length:
  "PolyT0Size \<le> length buf \<Longrightarrow> length (PackT0_loop Q D p 0 0 buf) = length buf"
  by (simp add: PackT0_loop_concat length_concat_uniform [where bs = 7] length_PackT0_block
      PolyT0Size_def N_def)

lemma UnpackT0_block_slice:
  "i + 7 \<le> length B \<Longrightarrow> UnpackT0_block Q D B i = UnpackT0_block Q D (take 7 (drop i B)) 0"
  by (simp add: UnpackT0_block_def)

lemma T0_roundtrip:
  assumes p: "length p = N" "\<forall>c \<in> set p. T0_range Q D c"
    and D: "1 \<le> D" "D \<le> 14"
    and buf: "PolyT0Size \<le> length buf" and p': "length p' = N"
  shows "\<exists>B. PackT0 Q D p buf = Inr B \<and> UnpackT0 Q D p' B = Inr p"
proof -
  define B where "B = PackT0_loop Q D p 0 0 buf"
  have B: "B = concat (map (\<lambda>m. PackT0_block Q D p (4 * m)) [0..<64]) @ drop PolyT0Size buf"
    unfolding B_def using buf by (rule PackT0_loop_concat)
  have lB: "length B = length buf" unfolding B_def using buf by (rule PackT0_loop_length)
  have "UnpackT0_loop Q D B 0 0 p'
      = concat (map (\<lambda>m. UnpackT0_block Q D B (7 * m)) [0..<64]) @ drop N p'"
    using p' by (intro UnpackT0_loop_concat) simp
  also have "concat (map (\<lambda>m. UnpackT0_block Q D B (7 * m)) [0..<64]) = p"
  proof (rule blocks_roundtrip [where pblk = "PackT0_block Q D" and cs = 4, OF B])
    show "length (PackT0_block Q D p j) = 7" for j
      by (rule length_PackT0_block)
    show "UnpackT0_block Q D B i = UnpackT0_block Q D (take 7 (drop i B)) 0"
      if "i + 7 \<le> length B" for i
      using that by (rule UnpackT0_block_slice)
    show "UnpackT0_block Q D (PackT0_block Q D p (4 * m)) 0 = take 4 (drop (4 * m) p)"
      if "m < 64" for m
      using that p D by (intro T0_block_roundtrip) (simp_all add: N_def)
    show "length p = 4 * 64" using p by (simp add: N_def)
  qed
  finally have "UnpackT0_loop Q D B 0 0 p' = p" using p' by simp
  then show ?thesis
    using buf lB by (simp add: PackT0_def UnpackT0_def B_def)
qed

subsection \<open>Round trip of the bounded-noise codec\<close>

lemma LeqEta_local_small:
  assumes r: "LeqEta_range Q Eta c" and e: "2 * uint Eta < 2 ^ k" and k: "k \<le> 31"
    and u2: "uint (2 ^ k :: u32) = 2 ^ k"
  shows "Q + Eta - c < 2 ^ k"
proof -
  define d where "d = uint Q + uint Eta - uint c"
  have d0: "0 \<le> d" using r by (simp add: d_def LeqEta_range_def)
  have d1: "d < 2 ^ k" using r e by (simp add: d_def LeqEta_range_def)
  have "(2 :: int) ^ k \<le> 2 ^ 31" using k by (intro power_increasing) simp_all
  then have d2: "d < 2 ^ 32" using d1 by simp
  have w: "Q + Eta - c = word_of_int d" by (simp add: d_def)
  have u: "uint (word_of_int d :: u32) = d" using d0 d2 by (rule uint_word_of_int_nonneg)
  have "uint (Q + Eta - c) < uint (2 ^ k :: u32)" using d1 w u u2 by simp
  then show ?thesis by (simp only: word_less_def)
qed

lemma mask_15: "(15 :: byte) = mask 4"
  by (simp add: mask_eq_exp_minus_1)

lemma mask_7: "(7 :: byte) = mask 3"
  by (simp add: mask_eq_exp_minus_1)

lemma LeqEta4_fields:
  fixes c0 c1 :: u32
  assumes "c0 < 2 ^ 4" "c1 < 2 ^ 4"
  shows "UnpackLeqEta4_block Q Eta [ucast c0 OR push_bit 4 (ucast c1)] 0
         = [Q + Eta - c0, Q + Eta - c1]"
proof -
  note hb = assms [THEN high_bits]
  show ?thesis
    unfolding UnpackLeqEta4_block_def mask_15
    apply (simp only: list.inject simp_thms)
    apply (intro conjI)
    apply (rule arg_cong [where f = "\<lambda>x. Q + Eta - x"], rule word32_eqI,
        simp add: bits_eval hb del: push_bit_Suc drop_bit_Suc)+
    done
qed

lemma LeqEta3_fields:
  fixes c0 c1 c2 c3 c4 c5 c6 c7 :: u32
  assumes "c0 < 2 ^ 3" "c1 < 2 ^ 3" "c2 < 2 ^ 3" "c3 < 2 ^ 3"
    "c4 < 2 ^ 3" "c5 < 2 ^ 3" "c6 < 2 ^ 3" "c7 < 2 ^ 3"
  shows "UnpackLeqEta3_block Q Eta
           [ucast c0 OR push_bit 3 (ucast c1) OR push_bit 6 (ucast c2),
            drop_bit 2 (ucast c2) OR push_bit 1 (ucast c3) OR push_bit 4 (ucast c4) OR
              push_bit 7 (ucast c5),
            drop_bit 1 (ucast c5) OR push_bit 2 (ucast c6) OR push_bit 5 (ucast c7)] 0
         = [Q + Eta - c0, Q + Eta - c1, Q + Eta - c2, Q + Eta - c3,
            Q + Eta - c4, Q + Eta - c5, Q + Eta - c6, Q + Eta - c7]"
proof -
  note hb = assms [THEN high_bits]
  show ?thesis
    unfolding UnpackLeqEta3_block_def mask_7
    apply (simp only: list.inject simp_thms)
    apply (intro conjI)
    apply (rule arg_cong [where f = "\<lambda>x. Q + Eta - x"], rule word32_eqI,
        simp add: bits_eval hb del: push_bit_Suc drop_bit_Suc)+
    done
qed

lemma length_PackLeqEta4_block: "length (PackLeqEta4_block Q Eta p j) = 1"
  by (simp add: PackLeqEta4_block_def)

lemma PackLeqEta4_loop_concat:
  assumes "PolyLeqEtaSize 4 \<le> length buf"
  shows "PackLeqEta4_loop Q Eta p 0 0 buf =
           concat (map (\<lambda>m. PackLeqEta4_block Q Eta p (2 * m)) [0..<128]) @ drop (PolyLeqEtaSize 4) buf"
proof -
  have "PackLeqEta4_loop Q Eta p (1 * 0) (2 * 0) buf =
      take (1 * 0) buf @ concat (map (\<lambda>m. PackLeqEta4_block Q Eta p (2 * m)) [0..<128])
        @ drop (1 * 128) buf"
    using assms
    by (intro block_loop [where L = "PackLeqEta4_loop Q Eta p" and S = "PolyLeqEtaSize 4" and oi = "\<lambda>i j. i"
          and blk = "\<lambda>i j. PackLeqEta4_block Q Eta p j"])
      (simp_all add: PackLeqEta4_loop.simps [of Q Eta p] length_PackLeqEta4_block PolyLeqEtaSize_def N_def)
  then show ?thesis by (simp add: PolyLeqEtaSize_def N_def)
qed

lemma UnpackLeqEta4_loop_concat:
  assumes "N \<le> length p"
  shows "UnpackLeqEta4_loop Q Eta buf 0 0 p =
           concat (map (\<lambda>m. UnpackLeqEta4_block Q Eta buf (1 * m)) [0..<128]) @ drop N p"
proof -
  have "UnpackLeqEta4_loop Q Eta buf (1 * 0) (2 * 0) p =
      take (2 * 0) p @ concat (map (\<lambda>m. UnpackLeqEta4_block Q Eta buf (1 * m)) [0..<128])
        @ drop (2 * 128) p"
    using assms
    by (intro block_loop [where L = "UnpackLeqEta4_loop Q Eta buf" and S = "PolyLeqEtaSize 4" and oi = "\<lambda>i j. j"
          and blk = "\<lambda>i j. UnpackLeqEta4_block Q Eta buf i"])
      (simp_all add: UnpackLeqEta4_loop.simps [of Q Eta buf] UnpackLeqEta4_block_def PolyLeqEtaSize_def N_def)
  then show ?thesis by (simp add: N_def)
qed

lemma PackLeqEta4_loop_length:
  "PolyLeqEtaSize 4 \<le> length buf \<Longrightarrow> length (PackLeqEta4_loop Q Eta p 0 0 buf) = length buf"
  by (simp add: PackLeqEta4_loop_concat length_concat_uniform [where bs = 1] length_PackLeqEta4_block
      PolyLeqEtaSize_def N_def)

lemma UnpackLeqEta4_block_slice:
  "i + 1 \<le> length B \<Longrightarrow>
   UnpackLeqEta4_block Q Eta B i = UnpackLeqEta4_block Q Eta (take 1 (drop i B)) 0"
  by (simp add: UnpackLeqEta4_block_def)

lemma length_PackLeqEta3_block: "length (PackLeqEta3_block Q Eta p j) = 3"
  by (simp add: PackLeqEta3_block_def)

lemma PackLeqEta3_loop_concat:
  assumes "PolyLeqEtaSize 3 \<le> length buf"
  shows "PackLeqEta3_loop Q Eta p 0 0 buf =
           concat (map (\<lambda>m. PackLeqEta3_block Q Eta p (8 * m)) [0..<32]) @ drop (PolyLeqEtaSize 3) buf"
proof -
  have "PackLeqEta3_loop Q Eta p (3 * 0) (8 * 0) buf =
      take (3 * 0) buf @ concat (map (\<lambda>m. PackLeqEta3_block Q Eta p (8 * m)) [0..<32])
        @ drop (3 * 32) buf"
    using assms
    by (intro block_loop [where L = "PackLeqEta3_loop Q Eta p" and S = "PolyLeqEtaSize 3" and oi = "\<lambda>i j. i"
          and blk = "\<lambda>i j. PackLeqEta3_block Q Eta p j"])
      (simp_all add: PackLeqEta3_loop.simps [of Q Eta p] length_PackLeqEta3_block PolyLeqEtaSize_def N_def)
  then show ?thesis by (simp add: PolyLeqEtaSize_def N_def)
qed

lemma UnpackLeqEta3_loop_concat:
  assumes "N \<le> length p"
  shows "UnpackLeqEta3_loop Q Eta buf 0 0 p =
           concat (map (\<lambda>m. UnpackLeqEta3_block Q Eta buf (3 * m)) [0..<32]) @ drop N p"
proof -
  have "UnpackLeqEta3_loop Q Eta buf (3 * 0) (8 * 0) p =
      take (8 * 0) p @ concat (map (\<lambda>m. UnpackLeqEta3_block Q Eta buf (3 * m)) [0..<32])
        @ drop (8 * 32) p"
    using assms
    by (intro block_loop [where L = "UnpackLeqEta3_loop Q Eta buf" and S = "PolyLeqEtaSize 3" and oi = "\<lambda>i j. j"
          and blk = "\<lambda>i j. UnpackLeqEta3_block Q Eta buf i"])
      (simp_all add: UnpackLeqEta3_loop.simps [of Q Eta buf] UnpackLeqEta3_block_def PolyLeqEtaSize_def N_def)
  then show ?thesis by (simp add: N_def)
qed

lemma PackLeqEta3_loop_length:
  "PolyLeqEtaSize 3 \<le> length buf \<Longrightarrow> length (PackLeqEta3_loop Q Eta p 0 0 buf) = length buf"
  by (simp add: PackLeqEta3_loop_concat length_concat_uniform [where bs = 3] length_PackLeqEta3_block
      PolyLeqEtaSize_def N_def)

lemma UnpackLeqEta3_block_slice:
  "i + 3 \<le> length B \<Longrightarrow>
   UnpackLeqEta3_block Q Eta B i = UnpackLeqEta3_block Q Eta (take 3 (drop i B)) 0"
  by (simp add: UnpackLeqEta3_block_def)

lemma LeqEta4_block_roundtrip:
  assumes j: "j + 2 \<le> length p" and r: "\<forall>c \<in> set p. LeqEta_range Q Eta c"
    and e: "2 * uint Eta < 2 ^ 4"
  shows "UnpackLeqEta4_block Q Eta (PackLeqEta4_block Q Eta p j) 0 = take 2 (drop j p)"
proof -
  have s: "Q + Eta - p ! (j + t) < 2 ^ 4" if "t < 2" for t
  proof -
    have "p ! (j + t) \<in> set p" using j that by (intro nth_mem) simp
    then show ?thesis using r e by (intro LeqEta_local_small) simp_all
  qed
  have "UnpackLeqEta4_block Q Eta (PackLeqEta4_block Q Eta p j) 0 = [p ! j, p ! (j + 1)]"
    unfolding PackLeqEta4_block_def
    using s [of 0] s [of 1] by (subst LeqEta4_fields) simp_all
  also have "\<dots> = take 2 (drop j p)"
    using take_drop_nths [OF j] by (simp add: upt_rec [of 0] upt_Suc_0_numeral)
  finally show ?thesis .
qed

lemma LeqEta3_block_roundtrip:
  assumes j: "j + 8 \<le> length p" and r: "\<forall>c \<in> set p. LeqEta_range Q Eta c"
    and e: "2 * uint Eta < 2 ^ 3"
  shows "UnpackLeqEta3_block Q Eta (PackLeqEta3_block Q Eta p j) 0 = take 8 (drop j p)"
proof -
  have s: "Q + Eta - p ! (j + t) < 2 ^ 3" if "t < 8" for t
  proof -
    have "p ! (j + t) \<in> set p" using j that by (intro nth_mem) simp
    then show ?thesis using r e by (intro LeqEta_local_small) simp_all
  qed
  have "UnpackLeqEta3_block Q Eta (PackLeqEta3_block Q Eta p j) 0
      = [p ! j, p ! (j + 1), p ! (j + 2), p ! (j + 3), p ! (j + 4), p ! (j + 5), p ! (j + 6),
         p ! (j + 7)]"
    unfolding PackLeqEta3_block_def
    using s [of 0] s [of 1] s [of 2] s [of 3] s [of 4] s [of 5] s [of 6] s [of 7]
    by (subst LeqEta3_fields) simp_all
  also have "\<dots> = take 8 (drop j p)"
    using take_drop_nths [OF j] by (simp add: upt_rec [of 0] upt_Suc_0_numeral)
  finally show ?thesis .
qed

lemma LeqEta4_roundtrip:
  assumes p: "length p = N" "\<forall>c \<in> set p. LeqEta_range Q Eta c"
    and e: "2 * uint Eta < 2 ^ 4"
    and buf: "PolyLeqEtaSize 4 \<le> length buf" and p': "length p' = N"
  shows "\<exists>B. PolyPackLeqEta Q Eta 4 p buf = Inr B \<and> PolyUnpackLeqEta Q Eta 4 p' B = Inr p"
proof -
  define B where "B = PackLeqEta4_loop Q Eta p 0 0 buf"
  have B: "B = concat (map (\<lambda>m. PackLeqEta4_block Q Eta p (2 * m)) [0..<128])
      @ drop (PolyLeqEtaSize 4) buf"
    unfolding B_def using buf by (rule PackLeqEta4_loop_concat)
  have lB: "length B = length buf" unfolding B_def using buf by (rule PackLeqEta4_loop_length)
  have "UnpackLeqEta4_loop Q Eta B 0 0 p'
      = concat (map (\<lambda>m. UnpackLeqEta4_block Q Eta B (1 * m)) [0..<128]) @ drop N p'"
    using p' by (intro UnpackLeqEta4_loop_concat) simp
  also have "concat (map (\<lambda>m. UnpackLeqEta4_block Q Eta B (1 * m)) [0..<128]) = p"
  proof (rule blocks_roundtrip [where pblk = "PackLeqEta4_block Q Eta" and cs = 2, OF B])
    show "length (PackLeqEta4_block Q Eta p j) = 1" for j by (rule length_PackLeqEta4_block)
    show "UnpackLeqEta4_block Q Eta B i = UnpackLeqEta4_block Q Eta (take 1 (drop i B)) 0"
      if "i + 1 \<le> length B" for i
      using that by (rule UnpackLeqEta4_block_slice)
    show "UnpackLeqEta4_block Q Eta (PackLeqEta4_block Q Eta p (2 * m)) 0 = take 2 (drop (2 * m) p)"
      if "m < 128" for m
      using that p e by (intro LeqEta4_block_roundtrip) (simp_all add: N_def)
    show "length p = 2 * 128" using p by (simp add: N_def)
  qed
  finally have "UnpackLeqEta4_loop Q Eta B 0 0 p' = p" using p' by simp
  then show ?thesis
    using buf lB by (simp add: PolyPackLeqEta_def PolyUnpackLeqEta_def B_def)
qed

lemma LeqEta3_roundtrip:
  assumes p: "length p = N" "\<forall>c \<in> set p. LeqEta_range Q Eta c"
    and e: "2 * uint Eta < 2 ^ 3"
    and buf: "PolyLeqEtaSize 3 \<le> length buf" and p': "length p' = N"
  shows "\<exists>B. PolyPackLeqEta Q Eta 3 p buf = Inr B \<and> PolyUnpackLeqEta Q Eta 3 p' B = Inr p"
proof -
  define B where "B = PackLeqEta3_loop Q Eta p 0 0 buf"
  have B: "B = concat (map (\<lambda>m. PackLeqEta3_block Q Eta p (8 * m)) [0..<32])
      @ drop (PolyLeqEtaSize 3) buf"
    unfolding B_def using buf by (rule PackLeqEta3_loop_concat)
  have lB: "length B = length buf" unfolding B_def using buf by (rule PackLeqEta3_loop_length)
  have "UnpackLeqEta3_loop Q Eta B 0 0 p'
      = concat (map (\<lambda>m. UnpackLeqEta3_block Q Eta B (3 * m)) [0..<32]) @ drop N p'"
    using p' by (intro UnpackLeqEta3_loop_concat) simp
  also have "concat (map (\<lambda>m. UnpackLeqEta3_block Q Eta B (3 * m)) [0..<32]) = p"
  proof (rule blocks_roundtrip [where pblk = "PackLeqEta3_block Q Eta" and cs = 8, OF B])
    show "length (PackLeqEta3_block Q Eta p j) = 3" for j by (rule length_PackLeqEta3_block)
    show "UnpackLeqEta3_block Q Eta B i = UnpackLeqEta3_block Q Eta (take 3 (drop i B)) 0"
      if "i + 3 \<le> length B" for i
      using that by (rule UnpackLeqEta3_block_slice)
    show "UnpackLeqEta3_block Q Eta (PackLeqEta3_block Q Eta p (8 * m)) 0 = take 8 (drop (8 * m) p)"
      if "m < 32" for m
      using that p e by (intro LeqEta3_block_roundtrip) (simp_all add: N_def)
    show "length p = 8 * 32" using p by (simp add: N_def)
  qed
  finally have "UnpackLeqEta3_loop Q Eta B 0 0 p' = p" using p' by simp
  then show ?thesis
    using buf lB by (simp add: PolyPackLeqEta_def PolyUnpackLeqEta_def B_def)
qed

subsection \<open>Arithmetic of the masking-vector codec\<close>

lemma signed_drop_bit_31:
  "signed_drop_bit 31 (x :: u32) = (if bit x 31 then - 1 else 0)"
  by (cases "bit x 31"; rule word32_eqI; simp add: bits_eval)

lemma add_Q_if_negative_eq:
  "add_Q_if_negative Q x = (if bit x 31 then x + Q else x)"
  by (simp add: add_Q_if_negative_def signed_drop_bit_31)

lemma bit_31_iff: "bit (x :: u32) 31 \<longleftrightarrow> 2 ^ 31 \<le> uint x"
proof -
  have b: "0 \<le> uint x" "uint x < 4294967296" using uint_lt2p [of x] by simp_all
  have "bit x 31 \<longleftrightarrow> bit (uint x) 31" by (simp add: bit_uint_iff)
  also have "\<dots> \<longleftrightarrow> odd (uint x div 2147483648)" by (simp add: bit_iff_odd)
  also have "\<dots> \<longleftrightarrow> 2147483648 \<le> uint x"
  proof (cases "2147483648 \<le> uint x")
    case True
    with b have "uint x div 2147483648 = 1" by simp
    with True show ?thesis by simp
  next
    case False
    then have "uint x div 2147483648 = 0" using b by simp
    with False show ?thesis by simp
  qed
  finally show ?thesis by simp
qed

lemma word_lt_of_uint: "uint (x :: u32) < 2 ^ 20 \<Longrightarrow> x < 2 ^ 20"
  by (simp add: word_less_def)

lemma Gamma1_local:
  assumes r: "LeGamma1_range Q Gamma1 c"
    and g: "2 * uint Gamma1 - 2 < 2 ^ 20" "2 * uint Gamma1 - 2 < uint Q" and q: "uint Q < 2 ^ 31"
  shows "add_Q_if_negative Q (Gamma1 - 1 - c) < 2 ^ 20 \<and>
         add_Q_if_negative Q (Gamma1 - 1 - add_Q_if_negative Q (Gamma1 - 1 - c)) = c"
proof -
  have c32: "uint c < 2 ^ 32" "0 \<le> uint c" using uint_lt2p [of c] by simp_all
  have x: "Gamma1 - 1 - c = word_of_int (uint Gamma1 - 1 - uint c)" by simp
  show ?thesis
  proof (cases "uint c < uint Gamma1")
    case True
    define k where "k = uint Gamma1 - 1 - uint c"
    have k: "0 \<le> k" "k < 2 ^ 20" "k < uint Gamma1" using True g uint_ge_0 [of c] by (simp add: k_def; linarith)+
    then have ux: "uint (Gamma1 - 1 - c) = k"
      unfolding x k_def [symmetric] by (intro uint_word_of_int_nonneg) simp_all
    then have nb: "\<not> bit (Gamma1 - 1 - c) 31" using k by (simp add: bit_31_iff)
    have f: "add_Q_if_negative Q (Gamma1 - 1 - c) = Gamma1 - 1 - c"
      using nb by (simp add: add_Q_if_negative_eq)
    have y: "Gamma1 - 1 - (Gamma1 - 1 - c) = c" by simp
    have "\<not> bit c 31" using True g by (simp add: bit_31_iff)
    then show ?thesis using f y ux k by (simp add: add_Q_if_negative_eq word_less_def)
  next
    case False
    with r have c: "uint Q - uint Gamma1 < uint c" "uint c < uint Q"
      by (simp_all add: LeGamma1_range_def)
    define k where "k = uint Gamma1 - 1 - uint c"
    have k: "k < 0" "- (2 ^ 31) < k" "uint Gamma1 \<le> k + uint Q" "k + uint Q < 2 ^ 20"
      using c g q False uint_ge_0 [of c] uint_ge_0 [of Gamma1] by (simp add: k_def; linarith)+
    then have ux: "uint (Gamma1 - 1 - c) = k + 2 ^ 32"
      unfolding x k_def [symmetric] by (intro uint_word_of_int_neg) simp_all
    then have b: "bit (Gamma1 - 1 - c) 31" using k by (simp add: bit_31_iff)
    have f: "add_Q_if_negative Q (Gamma1 - 1 - c) = Gamma1 - 1 - c + Q"
      using b by (simp add: add_Q_if_negative_eq)
    have "Gamma1 - 1 - c + Q = word_of_int (k + uint Q)" by (simp add: k_def)
    moreover have "uint (word_of_int (k + uint Q) :: u32) = k + uint Q"
      using k g uint_ge_0 [of Gamma1] by (intro uint_word_of_int_nonneg; simp; linarith)
    ultimately have uf: "uint (Gamma1 - 1 - c + Q) = k + uint Q" by simp
    have y: "Gamma1 - 1 - (Gamma1 - 1 - c + Q) = c - Q" by simp
    have "c - Q = word_of_int (uint c - uint Q)" by simp
    moreover have "uint (word_of_int (uint c - uint Q) :: u32) = uint c - uint Q + 2 ^ 32"
      using c q uint_ge_0 [of c] by (intro uint_word_of_int_neg; simp; linarith)
    ultimately have "uint (c - Q) = uint c - uint Q + 2 ^ 32" by simp
    then have "bit (c - Q) 31" using c q g by (simp add: bit_31_iff)
    then show ?thesis using f y uf k by (simp add: add_Q_if_negative_eq word_less_def)
  qed
qed

subsection \<open>Field extraction of the masking-vector codec\<close>

lemma mask_fffff: "(0xfffff :: u64) = mask 20"
  by (simp add: mask_eq_exp_minus_1)

lemma LeGamma1_fields:
  fixes f0 f1 f2 f3 f4 f5 f6 f7 f8 f9 f10 f11 f12 f13 f14 f15 :: u32
  assumes "f0 < 2 ^ 20" "f1 < 2 ^ 20" "f2 < 2 ^ 20" "f3 < 2 ^ 20" "f4 < 2 ^ 20" "f5 < 2 ^ 20"
    "f6 < 2 ^ 20" "f7 < 2 ^ 20" "f8 < 2 ^ 20" "f9 < 2 ^ 20" "f10 < 2 ^ 20" "f11 < 2 ^ 20"
    "f12 < 2 ^ 20" "f13 < 2 ^ 20" "f14 < 2 ^ 20" "f15 < 2 ^ 20"
  shows "UnpackLeGamma1_fields
           (PackLeGamma1_bytes f0 f1 @ PackLeGamma1_bytes f2 f3 @ PackLeGamma1_bytes f4 f5 @
            PackLeGamma1_bytes f6 f7 @ PackLeGamma1_bytes f8 f9 @ PackLeGamma1_bytes f10 f11 @
            PackLeGamma1_bytes f12 f13 @ PackLeGamma1_bytes f14 f15) 0
         = [f0, f1, f2, f3, f4, f5, f6, f7, f8, f9, f10, f11, f12, f13, f14, f15]"
proof -
  note hb = assms [THEN high_bits]
  show ?thesis
    unfolding UnpackLeGamma1_fields_def PackLeGamma1_bytes_def Uint64_at_def Let_def mask_fffff
    apply (simp only: list.inject simp_thms)
    apply (intro conjI)
    apply (rule word32_eqI, simp add: bits_eval hb del: push_bit_Suc drop_bit_Suc)+
    done
qed

subsection \<open>Round trip of the masking-vector codec\<close>

lemma concat_regroup:
  "concat (map f [0..<8 * n]) = concat (map (\<lambda>m. concat (map (\<lambda>t. f (8 * m + t)) [0..<8])) [0..<n])"
proof (induction n)
  case 0
  show ?case by simp
next
  case (Suc n)
  have a: "[0..<8 * n + 8] = [0..<8 * n] @ [8 * n..<8 * n + 8]"
    by (rule upt_add_eq_append) simp
  have b: "[8 * n..<8 * n + 8] = map (\<lambda>t. 8 * n + t) [0..<8]"
    by (rule nth_equalityI) simp_all
  have "concat (map f [0..<8 * n + 8])
      = concat (map f [0..<8 * n]) @ concat (map (\<lambda>t. f (8 * n + t)) [0..<8])"
    unfolding a b by (simp only: map_append concat_append map_map comp_def)
  moreover have "8 * Suc n = 8 * n + 8" by simp
  ultimately show ?case using Suc by (simp only: upt_Suc_append le0 map_append concat_append
        if_True list.map concat.simps append_Nil2)
qed

lemma length_PackLeGamma1_block: "length (PackLeGamma1_block Q Gamma1 p j) = 5"
  by (simp add: PackLeGamma1_block_def PackLeGamma1_bytes_def Let_def)

lemma PackLeGamma1_loop_concat:
  assumes "PolyLeGamma1Size \<le> length buf"
  shows "PackLeGamma1_loop Q Gamma1 p 0 0 buf =
           concat (map (\<lambda>m. PackLeGamma1_block Q Gamma1 p (2 * m)) [0..<128]) @ drop PolyLeGamma1Size buf"
proof -
  have "PackLeGamma1_loop Q Gamma1 p (5 * 0) (2 * 0) buf =
      take (5 * 0) buf @ concat (map (\<lambda>m. PackLeGamma1_block Q Gamma1 p (2 * m)) [0..<128])
        @ drop (5 * 128) buf"
    using assms
    by (intro block_loop [where L = "PackLeGamma1_loop Q Gamma1 p" and S = PolyLeGamma1Size
          and oi = "\<lambda>i j. i" and blk = "\<lambda>i j. PackLeGamma1_block Q Gamma1 p j"])
      (simp_all add: PackLeGamma1_loop.simps [of Q Gamma1 p] length_PackLeGamma1_block
        PolyLeGamma1Size_def N_def)
  then show ?thesis by (simp add: PolyLeGamma1Size_def N_def)
qed

lemma PackLeGamma1_loop_groups:
  assumes "PolyLeGamma1Size \<le> length buf"
  shows "PackLeGamma1_loop Q Gamma1 p 0 0 buf =
           concat (map (\<lambda>m. concat (map (\<lambda>t. PackLeGamma1_block Q Gamma1 p (16 * m + 2 * t)) [0..<8]))
                    [0..<16]) @ drop PolyLeGamma1Size buf"
proof -
  have e: "2 * (8 * m + t) = 16 * m + 2 * t" for m t :: nat by simp
  have n: "(128 :: nat) = 8 * 16" by simp
  have "concat (map (\<lambda>m. PackLeGamma1_block Q Gamma1 p (2 * m)) [0..<128])
      = concat (map (\<lambda>m. concat (map (\<lambda>t. PackLeGamma1_block Q Gamma1 p (2 * (8 * m + t))) [0..<8]))
          [0..<16])"
    unfolding n by (rule concat_regroup)
  then show ?thesis
    unfolding PackLeGamma1_loop_concat [OF assms] e by (simp only:)
qed

lemma length_UnpackLeGamma1_block: "length (UnpackLeGamma1_block Q Gamma1 buf i) = 16"
  by (simp add: UnpackLeGamma1_block_def UnpackLeGamma1_fields_def Let_def)

lemma UnpackLeGamma1_loop_concat:
  assumes "N \<le> length p"
  shows "UnpackLeGamma1_loop Q Gamma1 buf 0 0 p =
           concat (map (\<lambda>m. UnpackLeGamma1_block Q Gamma1 buf (40 * m)) [0..<16]) @ drop N p"
proof -
  have "UnpackLeGamma1_loop Q Gamma1 buf (40 * 0) (16 * 0) p =
      take (16 * 0) p @ concat (map (\<lambda>m. UnpackLeGamma1_block Q Gamma1 buf (40 * m)) [0..<16])
        @ drop (16 * 16) p"
    using assms
    by (intro block_loop [where L = "UnpackLeGamma1_loop Q Gamma1 buf" and S = PolyLeGamma1Size
          and oi = "\<lambda>i j. j" and blk = "\<lambda>i j. UnpackLeGamma1_block Q Gamma1 buf i"])
      (simp_all add: UnpackLeGamma1_loop.simps [of Q Gamma1 buf] length_UnpackLeGamma1_block
        PolyLeGamma1Size_def N_def)
  then show ?thesis by (simp add: N_def)
qed

lemma PackLeGamma1_loop_length:
  "PolyLeGamma1Size \<le> length buf \<Longrightarrow> length (PackLeGamma1_loop Q Gamma1 p 0 0 buf) = length buf"
  by (simp add: PackLeGamma1_loop_concat length_concat_uniform [where bs = 5]
      length_PackLeGamma1_block PolyLeGamma1Size_def N_def)

lemma Uint64_at_slice:
  "k + 8 \<le> n \<Longrightarrow> i + n \<le> length B \<Longrightarrow> Uint64_at (take n (drop i B)) k = Uint64_at B (i + k)"
  by (simp add: Uint64_at_def add.assoc)

lemma UnpackLeGamma1_block_slice:
  assumes "i + 40 \<le> length B"
  shows "UnpackLeGamma1_block Q Gamma1 B i = UnpackLeGamma1_block Q Gamma1 (take 40 (drop i B)) 0"
proof -
  have u0: "Uint64_at (take 40 (drop i B)) 0 = Uint64_at B i"
    using Uint64_at_slice [of 0 40 i B] assms by simp
  have u8: "Uint64_at (take 40 (drop i B)) (0 + 8) = Uint64_at B (i + 8)"
    using Uint64_at_slice [of 8 40 i B] assms by simp
  have u16: "Uint64_at (take 40 (drop i B)) (0 + 16) = Uint64_at B (i + 16)"
    using Uint64_at_slice [of 16 40 i B] assms by simp
  have u24: "Uint64_at (take 40 (drop i B)) (0 + 24) = Uint64_at B (i + 24)"
    using Uint64_at_slice [of 24 40 i B] assms by simp
  have u32: "Uint64_at (take 40 (drop i B)) (0 + 32) = Uint64_at B (i + 32)"
    using Uint64_at_slice [of 32 40 i B] assms by simp
  have "UnpackLeGamma1_fields (take 40 (drop i B)) 0 = UnpackLeGamma1_fields B i"
    unfolding UnpackLeGamma1_fields_def by (simp only: u0 u8 u16 u24 u32)
  then show ?thesis by (simp only: UnpackLeGamma1_block_def)
qed

lemma LeGamma1_block_roundtrip:
  assumes j: "j + 16 \<le> length p" and r: "\<forall>c \<in> set p. LeGamma1_range Q Gamma1 c"
    and g: "2 * uint Gamma1 - 2 < 2 ^ 20" "2 * uint Gamma1 - 2 < uint Q" and q: "uint Q < 2 ^ 31"
  shows "UnpackLeGamma1_block Q Gamma1
           (concat (map (\<lambda>t. PackLeGamma1_block Q Gamma1 p (j + 2 * t)) [0..<8])) 0
         = take 16 (drop j p)"
proof -
  define l where "l = (\<lambda>t. add_Q_if_negative Q (Gamma1 - 1 - p ! (j + t)))"
  have s: "l t < 2 ^ 20 \<and> add_Q_if_negative Q (Gamma1 - 1 - l t) = p ! (j + t)" if "t < 16" for t
  proof -
    have "p ! (j + t) \<in> set p" using j that by (intro nth_mem) simp
    then show ?thesis unfolding l_def using r g q by (intro Gamma1_local) simp_all
  qed
  have s1: "l t < 2 ^ 20" if "t < 16" for t using s [OF that] by simp
  have s2: "add_Q_if_negative Q (Gamma1 - 1 - l t) = p ! (j + t)" if "t < 16" for t
    using s [OF that] by simp
  have c: "concat (map (\<lambda>t. PackLeGamma1_block Q Gamma1 p (j + 2 * t)) [0..<8])
      = PackLeGamma1_bytes (l 0) (l 1) @ PackLeGamma1_bytes (l 2) (l 3) @
        PackLeGamma1_bytes (l 4) (l 5) @ PackLeGamma1_bytes (l 6) (l 7) @
        PackLeGamma1_bytes (l 8) (l 9) @ PackLeGamma1_bytes (l 10) (l 11) @
        PackLeGamma1_bytes (l 12) (l 13) @ PackLeGamma1_bytes (l 14) (l 15)"
  proof -
    have b: "PackLeGamma1_block Q Gamma1 p (j + k) = PackLeGamma1_bytes (l k) (l (k + 1))" for k
      by (simp add: PackLeGamma1_block_def Let_def l_def add.assoc)
    have "concat (map (\<lambda>t. PackLeGamma1_block Q Gamma1 p (j + 2 * t)) [0..<8])
      = PackLeGamma1_block Q Gamma1 p (j + 0) @ PackLeGamma1_block Q Gamma1 p (j + 2) @
        PackLeGamma1_block Q Gamma1 p (j + 4) @ PackLeGamma1_block Q Gamma1 p (j + 6) @
        PackLeGamma1_block Q Gamma1 p (j + 8) @ PackLeGamma1_block Q Gamma1 p (j + 10) @
        PackLeGamma1_block Q Gamma1 p (j + 12) @ PackLeGamma1_block Q Gamma1 p (j + 14)"
      by (simp add: upt_rec [of 0] upt_Suc_0_numeral)
    also have "\<dots> = PackLeGamma1_bytes (l 0) (l (0 + 1)) @ PackLeGamma1_bytes (l 2) (l (2 + 1)) @
        PackLeGamma1_bytes (l 4) (l (4 + 1)) @ PackLeGamma1_bytes (l 6) (l (6 + 1)) @
        PackLeGamma1_bytes (l 8) (l (8 + 1)) @ PackLeGamma1_bytes (l 10) (l (10 + 1)) @
        PackLeGamma1_bytes (l 12) (l (12 + 1)) @ PackLeGamma1_bytes (l 14) (l (14 + 1))"
      by (simp only: b)
    finally show ?thesis by simp
  qed
  have f: "UnpackLeGamma1_fields
        (concat (map (\<lambda>t. PackLeGamma1_block Q Gamma1 p (j + 2 * t)) [0..<8])) 0
      = [l 0, l 1, l 2, l 3, l 4, l 5, l 6, l 7, l 8, l 9, l 10, l 11, l 12, l 13, l 14, l 15]"
    unfolding c by (rule LeGamma1_fields) (rule s1, simp)+
  have m: "map (\<lambda>t. p ! (j + t)) [0..<16]
      = [p ! (j + 0), p ! (j + 1), p ! (j + 2), p ! (j + 3), p ! (j + 4), p ! (j + 5), p ! (j + 6),
         p ! (j + 7), p ! (j + 8), p ! (j + 9), p ! (j + 10), p ! (j + 11), p ! (j + 12),
         p ! (j + 13), p ! (j + 14), p ! (j + 15)]"
    by (simp add: upt_rec [of 0] upt_Suc_0_numeral)
  have "UnpackLeGamma1_block Q Gamma1
        (concat (map (\<lambda>t. PackLeGamma1_block Q Gamma1 p (j + 2 * t)) [0..<8])) 0
      = map (\<lambda>t. p ! (j + t)) [0..<16]"
    unfolding UnpackLeGamma1_block_def f m list.map
    by (simp only: s2 [of 0] s2 [of 1] s2 [of 2] s2 [of 3] s2 [of 4] s2 [of 5] s2 [of 6] s2 [of 7]
      s2 [of 8] s2 [of 9] s2 [of 10] s2 [of 11] s2 [of 12] s2 [of 13] s2 [of 14] s2 [of 15]
      simp_thms)
  then show ?thesis using take_drop_nths [OF j] by simp
qed

lemma LeGamma1_roundtrip:
  assumes p: "length p = N" "\<forall>c \<in> set p. LeGamma1_range Q Gamma1 c"
    and g: "2 * uint Gamma1 - 2 < 2 ^ 20" "2 * uint Gamma1 - 2 < uint Q" and q: "uint Q < 2 ^ 31"
    and buf: "PolyLeGamma1Size \<le> length buf" and p': "length p' = N"
  shows "\<exists>B. PolyPackLeGamma1 Q Gamma1 p buf = Inr B \<and> PolyUnpackLeGamma1 Q Gamma1 p' B = Inr p"
proof -
  define B where "B = PackLeGamma1_loop Q Gamma1 p 0 0 buf"
  define pblk where "pblk = (\<lambda>(p :: u32 list) j.
      concat (map (\<lambda>t. PackLeGamma1_block Q Gamma1 p (j + 2 * t)) [0..<8]))"
  have B: "B = concat (map (\<lambda>m. pblk p (16 * m)) [0..<16]) @ drop PolyLeGamma1Size buf"
    unfolding B_def pblk_def using buf by (rule PackLeGamma1_loop_groups)
  have lB: "length B = length buf" unfolding B_def using buf by (rule PackLeGamma1_loop_length)
  have "UnpackLeGamma1_loop Q Gamma1 B 0 0 p'
      = concat (map (\<lambda>m. UnpackLeGamma1_block Q Gamma1 B (40 * m)) [0..<16]) @ drop N p'"
    using p' by (intro UnpackLeGamma1_loop_concat) simp
  also have "concat (map (\<lambda>m. UnpackLeGamma1_block Q Gamma1 B (40 * m)) [0..<16]) = p"
  proof (rule blocks_roundtrip [where pblk = pblk and cs = 16, OF B])
    show "length (pblk p j) = 40" for j
      using length_concat_uniform [of "\<lambda>t. PackLeGamma1_block Q Gamma1 p (j + 2 * t)" 5 8]
      by (simp add: pblk_def length_PackLeGamma1_block)
    show "UnpackLeGamma1_block Q Gamma1 B i = UnpackLeGamma1_block Q Gamma1 (take 40 (drop i B)) 0"
      if "i + 40 \<le> length B" for i
      using that by (rule UnpackLeGamma1_block_slice)
    show "UnpackLeGamma1_block Q Gamma1 (pblk p (16 * m)) 0 = take 16 (drop (16 * m) p)"
      if "m < 16" for m
      unfolding pblk_def using that p g q by (intro LeGamma1_block_roundtrip) (simp_all add: N_def)
    show "length p = 16 * 16" using p by (simp add: N_def)
  qed
  finally have "UnpackLeGamma1_loop Q Gamma1 B 0 0 p' = p" using p' by simp
  then show ?thesis
    using buf lB by (simp add: PolyPackLeGamma1_def PolyUnpackLeGamma1_def B_def)
qed

subsection \<open>The rounding primitives\<close>

lemma centered_mod_window:
  assumes "0 < m" "even m"
  shows "- (m div 2) < centered_mod a m \<and> centered_mod a m \<le> m div 2"
proof -
  have r: "0 \<le> a mod m" "a mod m < m" using assms(1) by simp_all
  have m: "m = 2 * (m div 2)" using assms(2) by simp
  show ?thesis using r m by (auto simp: centered_mod_def Let_def)
qed

lemma centered_mod_split:
  assumes "0 < m"
  shows "(a - centered_mod a m) div m = (if m div 2 < a mod m then a div m + 1 else a div m)
       \<and> centered_mod a m + m * ((a - centered_mod a m) div m) = a"
proof (cases "m div 2 < a mod m")
  case True
  then have c: "centered_mod a m = a mod m - m" by (simp add: centered_mod_def)
  have "a - (a mod m - m) = m * (a div m + 1)"
    using mult_div_mod_eq [of m a] by (simp add: algebra_simps)
  then have d: "(a - (a mod m - m)) div m = a div m + 1" using assms by simp
  have "a mod m - m + m * (a div m + 1) = a"
    using mult_div_mod_eq [of m a] by (simp add: algebra_simps)
  with True c d show ?thesis by simp
next
  case False
  then have c: "centered_mod a m = a mod m" by (simp add: centered_mod_def)
  have "a - a mod m = m * (a div m)" by (simp add: minus_mod_eq_mult_div)
  then have d: "(a - a mod m) div m = a div m" using assms by simp
  with False c show ?thesis using mult_div_mod_eq [of m a] by (simp add: algebra_simps)
qed

lemma high_part_bound:
  assumes m: "0 < m" and a: "0 \<le> a" "a < Q" and top: "(Q - 1) mod m \<le> m div 2"
  shows "0 \<le> (a - centered_mod a m) div m \<and> (a - centered_mod a m) div m \<le> (Q - 1) div m"
proof -
  have s: "(a - centered_mod a m) div m = (if m div 2 < a mod m then a div m + 1 else a div m)"
    using centered_mod_split [OF m, of a] by blast
  have q0: "0 \<le> a div m" using a m by (simp add: pos_imp_zdiv_nonneg_iff)
  have le: "a div m \<le> (Q - 1) div m" using a m by (intro zdiv_mono1) simp_all
  show ?thesis
  proof (cases "m div 2 < a mod m")
    case False
    with s q0 le show ?thesis by simp
  next
    case True
    have "a div m \<noteq> (Q - 1) div m"
    proof
      assume e: "a div m = (Q - 1) div m"
      have "a = m * (a div m) + a mod m" by simp
      moreover have "Q - 1 = m * ((Q - 1) div m) + (Q - 1) mod m" by simp
      ultimately have "a mod m \<le> (Q - 1) mod m" using a e by (metis add_le_cancel_left zle_diff1_eq)
      with True top show False by simp
    qed
    with le have "a div m + 1 \<le> (Q - 1) div m" by simp
    with True s q0 show ?thesis by simp
  qed
qed

text \<open>C7: for every \<open>a\<close> in \<open>[0, Q)\<close>, \<open>power2round\<close> returns \<open>(a0 + Q, a1)\<close> where the centred
  value \<open>a0\<close> lies in \<open>(-2\<^sup>D\<^sup>-\<^sup>1, 2\<^sup>D\<^sup>-\<^sup>1]\<close>, \<open>a1\<close> is at most \<open>(Q - 1) / 2\<^sup>D\<close>, and
  \<open>a0 + 2\<^sup>D \<cdot> a1\<close> is \<open>a\<close> (so congruent to \<open>a\<close> modulo \<open>Q\<close>). The bound on \<open>a1\<close> needs the
  parameters to satisfy \<open>(Q - 1) mod 2\<^sup>D \<le> 2\<^sup>D\<^sup>-\<^sup>1\<close>, which the scheme's \<open>Q = 8380417\<close> and
  \<open>D = 14\<close> do.\<close>

theorem power2round_recombines:
  assumes a: "0 \<le> a" "a < Q" and D: "1 \<le> D" and top: "(Q - 1) mod 2 ^ D \<le> 2 ^ (D - 1)"
  shows "- (2 ^ (D - 1)) < fst (power2round Q D a) - Q
       \<and> fst (power2round Q D a) - Q \<le> 2 ^ (D - 1)
       \<and> 0 \<le> snd (power2round Q D a)
       \<and> snd (power2round Q D a) \<le> (Q - 1) div 2 ^ D
       \<and> fst (power2round Q D a) - Q + 2 ^ D * snd (power2round Q D a) = a
       \<and> (fst (power2round Q D a) - Q + 2 ^ D * snd (power2round Q D a)) mod Q = a mod Q"
proof -
  define m :: int where "m = 2 ^ D"
  have m: "0 < m" "even m" using D by (simp_all add: m_def)
  have h: "m div 2 = 2 ^ (D - 1)" using D by (cases D) (simp_all add: m_def)
  have f: "fst (power2round Q D a) - Q = centered_mod a m"
    and s: "snd (power2round Q D a) = (a - centered_mod a m) div m"
    by (simp_all add: power2round_def Let_def m_def)
  have w: "- (m div 2) < centered_mod a m \<and> centered_mod a m \<le> m div 2"
    using m by (rule centered_mod_window)
  have top': "(Q - 1) mod m \<le> m div 2" unfolding h using top by (simp add: m_def)
  have b: "0 \<le> (a - centered_mod a m) div m \<and> (a - centered_mod a m) div m \<le> (Q - 1) div m"
    using m(1) a top' by (rule high_part_bound)
  have r: "centered_mod a m + m * ((a - centered_mod a m) div m) = a"
    using centered_mod_split [OF m(1), of a] by blast
  show ?thesis using w b r unfolding f s h by (simp add: m_def)
qed

theorem power2round_recombines_witness:
  "(0 :: int) \<le> 8380416 \<and> (8380416 :: int) < 8380417 \<and> (1 :: nat) \<le> 14 \<and>
   ((8380417 :: int) - 1) mod 2 ^ 14 \<le> 2 ^ (14 - 1) \<and>
   power2round 8380417 14 8380416 = (8380417 + 8192, 511) \<and>
   fst (power2round 8380417 14 8380416) - 8380417 \<le> 2 ^ (14 - 1) \<and>
   snd (power2round 8380417 14 8380416) \<le> (8380417 - 1) div 2 ^ 14 \<and>
   fst (power2round 8380417 14 8380416) - 8380417 + 2 ^ 14 * snd (power2round 8380417 14 8380416)
     = 8380416"
proof -
  have 1: "(0 :: int) \<le> 8380416" "(8380416 :: int) < 8380417" "(1 :: nat) \<le> 14"
    "((8380417 :: int) - 1) mod 2 ^ 14 \<le> 2 ^ (14 - 1)" by simp_all
  have 2: "power2round 8380417 14 8380416 = (8380417 + 8192, 511)"
    by (simp add: power2round_def centered_mod_def Let_def)
  show ?thesis using power2round_recombines [OF 1] 1 2 by simp
qed

subsection \<open>The sparse challenge codec\<close>

text \<open>C4: on a 40-byte buffer, \<open>UnpackB60\<close> returns failure if any of the top four bits
  (bits 60..63) of the sign field is set, and returns success whenever the 32-byte mask has
  exactly 60 set bits and the four unused sign bits are all zero.\<close>

theorem UnpackB60_accepts_rejects:
  assumes "length buf = 40"
  shows "((\<exists>k. 60 \<le> k \<and> k < 64 \<and> bit (B60_signs buf) k) \<longrightarrow>
            (\<exists>p'. UnpackB60 Q p buf = Inr (p', False)))
       \<and> (B60_mask_bits buf = 60 \<and> (\<forall>k. 60 \<le> k \<and> k < 64 \<longrightarrow> \<not> bit (B60_signs buf) k) \<longrightarrow>
            (\<exists>p'. UnpackB60 Q p buf = Inr (p', True)))"
  using assms drop_bit_60_signs [of "B60_signs buf"]
  by (auto simp: UnpackB60_def Let_def)

theorem UnpackB60_accepts_rejects_witness:
  "length B60_accept_buf = 40 \<and> B60_mask_bits B60_accept_buf = 60 \<and>
   B60_signs B60_accept_buf = 0 \<and>
   (\<exists>p'. UnpackB60 8380417 [] B60_accept_buf = Inr (p', True)) \<and>
   length B60_reject_buf = 40 \<and> bit (B60_signs B60_reject_buf) 60 \<and>
   (\<exists>p'. UnpackB60 8380417 [] B60_reject_buf = Inr (p', False))"
proof -
  have a1: "length B60_accept_buf = 40" by code_simp
  have a2: "B60_mask_bits B60_accept_buf = 60" by code_simp
  have a3: "B60_signs B60_accept_buf = 0" by code_simp
  have r1: "length B60_reject_buf = 40" by code_simp
  have r2: "bit (B60_signs B60_reject_buf) 60" by code_simp
  have "\<exists>p'. UnpackB60 8380417 [] B60_accept_buf = Inr (p', True)"
    using UnpackB60_accepts_rejects [OF a1, of 8380417 "[]"] a2 a3 by simp
  moreover have "\<exists>p'. UnpackB60 8380417 [] B60_reject_buf = Inr (p', False)"
  proof -
    have "\<exists>k. 60 \<le> k \<and> k < 64 \<and> bit (B60_signs B60_reject_buf) k"
      using r2 by (intro exI [of _ 60]) simp
    then show ?thesis
      using UnpackB60_accepts_rejects [OF r1, of 8380417 "[]"] by simp
  qed
  ultimately show ?thesis using a1 a2 a3 r1 r2 by simp
qed

subsection \<open>The hint vector codec\<close>

lemma all_from_Suc:
  "P j \<Longrightarrow> (\<forall>j'. Suc j \<le> j' \<and> j' < n \<longrightarrow> P j') \<longleftrightarrow> (\<forall>j'. j \<le> j' \<and> j' < n \<longrightarrow> P j')"
  by (metis Suc_leD Suc_leI le_neq_implies_less)

lemma indices_ok:
  "snd (UnpackHint_indices buf p S j vi) \<longleftrightarrow> (\<forall>j'. j \<le> j' \<and> j' < S \<longrightarrow> (p < j' \<longrightarrow> buf ! (j' - 1) < buf ! j'))"
proof (induction buf p S j vi rule: UnpackHint_indices.induct)
  case (1 buf p S j vi)
  show ?case
  proof (cases "j < S")
    case False
    then show ?thesis by (subst UnpackHint_indices.simps) auto
  next
    case True
    show ?thesis
    proof (cases "j > p \<and> buf ! j \<le> buf ! (j - 1)")
      case True
      with \<open>j < S\<close> show ?thesis by (subst UnpackHint_indices.simps) (auto simp: not_less)
    next
      case False
      then have Pj: "p < j \<longrightarrow> buf ! (j - 1) < buf ! j" by (auto simp: not_le)
      from False \<open>j < S\<close> have "snd (UnpackHint_indices buf p S j vi)
          \<longleftrightarrow> snd (UnpackHint_indices buf p S (j + 1) (vi[unat (buf ! j) := 1]))"
        by (subst UnpackHint_indices.simps) auto
      also have "\<dots> \<longleftrightarrow> (\<forall>j'. Suc j \<le> j' \<and> j' < S \<longrightarrow> (p < j' \<longrightarrow> buf ! (j' - 1) < buf ! j'))"
        using "1.IH" [OF \<open>j < S\<close> False] by simp
      also have "\<dots> \<longleftrightarrow> (\<forall>j'. j \<le> j' \<and> j' < S \<longrightarrow> (p < j' \<longrightarrow> buf ! (j' - 1) < buf ! j'))"
        using Pj by (rule all_from_Suc)
      finally show ?thesis .
    qed
  qed
qed

lemma padding_ok:
  "Omega \<le> length buf \<Longrightarrow>
   UnpackHint_padding Omega buf j = Inr (\<forall>j'. j \<le> j' \<and> j' < Omega \<longrightarrow> buf ! j' = 0)"
proof (induction Omega buf j rule: UnpackHint_padding.induct)
  case (1 Omega buf j)
  show ?case
  proof (cases "j < Omega")
    case False
    then show ?thesis by (subst UnpackHint_padding.simps) auto
  next
    case True
    show ?thesis
    proof (cases "buf ! j = 0")
      case False
      with True "1.prems" show ?thesis by (subst UnpackHint_padding.simps) auto
    next
      case z: True
      have "(\<forall>j'. Suc j \<le> j' \<and> j' < Omega \<longrightarrow> buf ! j' = 0) \<longleftrightarrow> (\<forall>j'. j \<le> j' \<and> j' < Omega \<longrightarrow> buf ! j' = 0)"
        using z by (rule all_from_Suc)
      with True z "1.prems" "1.IH" show ?thesis by (subst UnpackHint_padding.simps) simp
    qed
  qed
qed

lemma polys_ok:
  "Omega + K \<le> length buf \<Longrightarrow> prev = hint_prevSOP Omega buf i \<Longrightarrow> i \<le> K \<Longrightarrow>
   \<exists>v' ok ps. UnpackHint_polys K Omega buf i prev v = Inr (v', ok, ps) \<and>
     (ok \<longleftrightarrow> (\<forall>i'. i \<le> i' \<and> i' < K \<longrightarrow> hint_elem_ok Omega buf i')) \<and>
     (ok \<longrightarrow> ps = hint_prevSOP Omega buf K)"
proof (induction K Omega buf i prev v rule: UnpackHint_polys.induct)
  case (1 K Omega buf i prev v)
  show ?case
  proof (cases "i < K")
    case False
    with "1.prems" show ?thesis by (subst UnpackHint_polys.simps) auto
  next
    case True
    then have len: "\<not> length buf \<le> Omega + i" using "1.prems" by simp
    define SOP where "SOP = buf ! (Omega + i)"
    have SOP: "SOP = hint_SOP Omega buf i" by (simp add: SOP_def hint_SOP_def)
    show ?thesis
    proof (cases "SOP < prev \<or> Omega < unat SOP")
      case bad: True
      then have "\<not> hint_elem_ok Omega buf i"
        using "1.prems" SOP by (auto simp: hint_elem_ok_def)
      with True have "\<not> (\<forall>i'. i \<le> i' \<and> i' < K \<longrightarrow> hint_elem_ok Omega buf i')" by auto
      moreover have "UnpackHint_polys K Omega buf i prev v = Inr (v, False, prev)"
        using True len bad by (subst UnpackHint_polys.simps) (auto simp: SOP_def Let_def)
      ultimately show ?thesis by auto
    next
      case good: False
      obtain vi ok where r: "UnpackHint_indices buf (unat prev) (unat SOP) (unat prev) (v ! i) = (vi, ok)"
        by (cases "UnpackHint_indices buf (unat prev) (unat SOP) (unat prev) (v ! i)")
      have ok: "ok \<longleftrightarrow> (\<forall>j. unat prev \<le> j \<and> j < unat SOP \<longrightarrow> (unat prev < j \<longrightarrow> buf ! (j - 1) < buf ! j))"
        using indices_ok [of buf "unat prev" "unat SOP" "unat prev" "v ! i"] r by simp
      have eok: "hint_elem_ok Omega buf i \<longleftrightarrow> ok"
        using good ok "1.prems" SOP by (auto simp: hint_elem_ok_def not_less)
      show ?thesis
      proof (cases ok)
        case False
        with eok True have "\<not> (\<forall>i'. i \<le> i' \<and> i' < K \<longrightarrow> hint_elem_ok Omega buf i')" by auto
        moreover have "UnpackHint_polys K Omega buf i prev v = Inr (v[i := vi], False, prev)"
          using True len good r False
          by (subst UnpackHint_polys.simps) (auto simp: SOP_def [symmetric] Let_def)
        ultimately show ?thesis by auto
      next
        case okT: True
        have step: "UnpackHint_polys K Omega buf i prev v = UnpackHint_polys K Omega buf (i + 1) SOP (v[i := vi])"
          using True len good r okT
          by (subst UnpackHint_polys.simps) (auto simp: SOP_def [symmetric] Let_def)
        have p': "SOP = hint_prevSOP Omega buf (i + 1)"
          by (simp add: SOP_def hint_prevSOP_def)
        have "\<exists>v' ok ps. UnpackHint_polys K Omega buf (i + 1) SOP (v[i := vi]) = Inr (v', ok, ps) \<and>
           (ok \<longleftrightarrow> (\<forall>i'. i + 1 \<le> i' \<and> i' < K \<longrightarrow> hint_elem_ok Omega buf i')) \<and>
           (ok \<longrightarrow> ps = hint_prevSOP Omega buf K)"
          using "1.IH" [OF True len SOP_def good r [symmetric] okT "1.prems"(1) p'] True by simp
        moreover have "(\<forall>i'. i + 1 \<le> i' \<and> i' < K \<longrightarrow> hint_elem_ok Omega buf i')
            \<longleftrightarrow> (\<forall>i'. i \<le> i' \<and> i' < K \<longrightarrow> hint_elem_ok Omega buf i')"
          using eok okT all_from_Suc [of "hint_elem_ok Omega buf" i K] by simp
        ultimately show ?thesis using step by simp
      qed
    qed
  qed
qed

lemma hint_elems_ok_iff:
  "(\<forall>i'. 0 \<le> i' \<and> i' < K \<longrightarrow> hint_elem_ok Omega buf i') \<longleftrightarrow>
   \<not> (hint_SOP_decreases K Omega buf \<or> hint_SOP_exceeds K Omega buf \<or> hint_index_disorder K Omega buf)"
  unfolding hint_elem_ok_def hint_SOP_decreases_def hint_SOP_exceeds_def hint_index_disorder_def
  by (auto simp: not_less not_le Suc_le_eq) 

lemma hint_padding_iff:
  "(\<forall>j'. unat (hint_prevSOP Omega buf K) \<le> j' \<and> j' < Omega \<longrightarrow> buf ! j' = 0) \<longleftrightarrow>
   \<not> hint_padding_nonzero K Omega buf"
  unfolding hint_padding_nonzero_def by auto

text \<open>C3: on a buffer of \<open>Omega + K\<close> bytes \<open>UnpackHint\<close> returns failure whenever a
  switch-over point is smaller than the previous one, or exceeds \<open>Omega\<close>, or an index within
  one element's range is not strictly greater than its predecessor, or a byte beyond the last
  switch-over point is nonzero; and it returns success on every buffer with none of these.\<close>

theorem UnpackHint_accepts_iff:
  assumes "length buf = Omega + K"
  shows "\<exists>v'. UnpackHint K Omega v buf =
           Inr (v', \<not> (hint_SOP_decreases K Omega buf \<or> hint_SOP_exceeds K Omega buf \<or>
                       hint_index_disorder K Omega buf \<or> hint_padding_nonzero K Omega buf))"
proof -
  have len: "Omega + K \<le> length buf" "Omega \<le> length buf" using assms by simp_all
  obtain v' ok ps where r: "UnpackHint_polys K Omega buf 0 0 (replicate K (replicate N 0)) = Inr (v', ok, ps)"
    and ok: "ok \<longleftrightarrow> (\<forall>i'. 0 \<le> i' \<and> i' < K \<longrightarrow> hint_elem_ok Omega buf i')"
    and ps: "ok \<longrightarrow> ps = hint_prevSOP Omega buf K"
    using polys_ok [OF len(1), of 0 0 "replicate K (replicate N 0)"]
    by (auto simp: hint_prevSOP_def)
  show ?thesis
  proof (cases ok)
    case False
    then have "UnpackHint K Omega v buf = Inr (v', False)"
      using r by (simp add: UnpackHint_def)
    moreover from False ok hint_elems_ok_iff [of K Omega buf]
    have "hint_SOP_decreases K Omega buf \<or> hint_SOP_exceeds K Omega buf \<or> hint_index_disorder K Omega buf"
      by blast
    ultimately show ?thesis by auto
  next
    case True
    then have "UnpackHint K Omega v buf =
        Inr (v', \<forall>j'. unat (hint_prevSOP Omega buf K) \<le> j' \<and> j' < Omega \<longrightarrow> buf ! j' = 0)"
      using r ps padding_ok [OF len(2), of "unat ps"] by (simp add: UnpackHint_def)
    moreover from True ok hint_elems_ok_iff [of K Omega buf]
    have "\<not> (hint_SOP_decreases K Omega buf \<or> hint_SOP_exceeds K Omega buf \<or> hint_index_disorder K Omega buf)"
      by blast
    ultimately show ?thesis using hint_padding_iff [of Omega buf K] by auto
  qed
qed

theorem UnpackHint_accepts_iff_witness:
  "length hint_good_buf = 96 + 5 \<and>
   \<not> (hint_SOP_decreases 5 96 hint_good_buf \<or> hint_SOP_exceeds 5 96 hint_good_buf \<or>
      hint_index_disorder 5 96 hint_good_buf \<or> hint_padding_nonzero 5 96 hint_good_buf) \<and>
   (\<exists>v'. UnpackHint 5 96 [] hint_good_buf = Inr (v', True)) \<and>
   length hint_partial_buf = 96 + 5 \<and> hint_SOP_decreases 5 96 hint_partial_buf \<and>
   (\<exists>v'. UnpackHint 5 96 [] hint_partial_buf = Inr (v', False))"
proof -
  have g1: "length hint_good_buf = 96 + 5" by code_simp
  have g2: "\<not> (hint_SOP_decreases 5 96 hint_good_buf \<or> hint_SOP_exceeds 5 96 hint_good_buf \<or>
      hint_index_disorder 5 96 hint_good_buf \<or> hint_padding_nonzero 5 96 hint_good_buf)"
    by code_simp
  have b1: "length hint_partial_buf = 96 + 5" by code_simp
  have b2: "hint_SOP_decreases 5 96 hint_partial_buf" by code_simp
  have "\<exists>v'. UnpackHint 5 96 [] hint_good_buf = Inr (v', True)"
    using UnpackHint_accepts_iff [OF g1, of "[]"] g2 by simp
  moreover have "\<exists>v'. UnpackHint 5 96 [] hint_partial_buf = Inr (v', False)"
    using UnpackHint_accepts_iff [OF b1, of "[]"] b2 by simp
  ultimately show ?thesis using g1 g2 b1 b2 by blast
qed

subsection \<open>What the hint decoder has written when it returns\<close>

lemma hint_mark_empty: "b \<le> a \<Longrightarrow> hint_mark vi buf a b = vi"
  by (simp add: hint_mark_def map_nth)

lemma hint_mark_zero: "hint_mark (replicate N 0) buf a b = hint_bits_of buf a b"
  unfolding hint_mark_def hint_bits_of_def by (rule map_cong) auto

lemma hint_mark_step:
  assumes "j < b" "unat (buf ! j) < length vi"
  shows "hint_mark (vi[unat (buf ! j) := 1]) buf (Suc j) b = hint_mark vi buf j b"
proof (rule nth_equalityI)
  show "length (hint_mark (vi[unat (buf ! j) := 1]) buf (Suc j) b) = length (hint_mark vi buf j b)"
    by (simp add: hint_mark_def)
next
  fix c
  assume "c < length (hint_mark (vi[unat (buf ! j) := 1]) buf (Suc j) b)"
  then have c: "c < length vi" by (simp add: hint_mark_def)
  define A where "A \<longleftrightarrow> (\<exists>j' \<in> {Suc j..<b}. unat (buf ! j') = c)"
  have "{j..<b} = insert j {Suc j..<b}" using assms(1) by auto
  then have e: "(\<exists>j' \<in> {j..<b}. unat (buf ! j') = c) \<longleftrightarrow> unat (buf ! j) = c \<or> A"
    by (simp add: A_def)
  have L: "hint_mark (vi[unat (buf ! j) := 1]) buf (Suc j) b ! c
      = (if A then 1 else vi[unat (buf ! j) := 1] ! c)"
    using c by (simp add: hint_mark_def A_def)
  have R: "hint_mark vi buf j b ! c = (if unat (buf ! j) = c \<or> A then 1 else vi ! c)"
    using c e by (simp add: hint_mark_def)
  show "hint_mark (vi[unat (buf ! j) := 1]) buf (Suc j) b ! c = hint_mark vi buf j b ! c"
    using L R c assms(2) by (cases "unat (buf ! j) = c") (simp_all add: nth_list_update)
qed

lemma hint_stop_from:
  assumes "j < S" "\<not> buf ! j \<le> buf ! (j - 1) \<or> j \<le> p"
  shows "(case filter (\<lambda>j. buf ! j \<le> buf ! (j - 1)) [max j (Suc p)..<S] of [] \<Rightarrow> S | x # _ \<Rightarrow> x)
       = (case filter (\<lambda>j. buf ! j \<le> buf ! (j - 1)) [max (Suc j) (Suc p)..<S] of [] \<Rightarrow> S | x # _ \<Rightarrow> x)"
proof (cases "j \<le> p")
  case True
  then have "max j (Suc p) = max (Suc j) (Suc p)" by simp
  then show ?thesis by simp
next
  case False
  then have m: "max j (Suc p) = j" "max (Suc j) (Suc p) = Suc j" by simp_all
  have "[j..<S] = j # [Suc j..<S]" using assms(1) by (simp add: upt_conv_Cons)
  then show ?thesis using assms(2) False by (simp add: m)
qed

lemma hint_stop_bound:
  assumes "j < S" "j < a"
  shows "j < (case filter P [a..<S] of [] \<Rightarrow> S | x # _ \<Rightarrow> x)"
proof (cases "filter P [a..<S]")
  case Nil
  then show ?thesis using assms by simp
next
  case (Cons x xs)
  then have "x \<in> set (filter P [a..<S])" by simp
  then have "a \<le> x" by simp
  with Cons assms show ?thesis by simp
qed

lemma indices_exact:
  "length vi = N \<Longrightarrow>
   UnpackHint_indices buf p S j vi =
     (let stop = (case filter (\<lambda>j. buf ! j \<le> buf ! (j - 1)) [max j (Suc p)..<S] of
                    [] \<Rightarrow> S | x # _ \<Rightarrow> x)
      in (hint_mark vi buf j stop, stop = S))"
proof (induction buf p S j vi rule: UnpackHint_indices.induct)
  case (1 buf p S j vi)
  let ?bad = "\<lambda>j. buf ! j \<le> buf ! (j - 1)"
  let ?stop = "\<lambda>j. (case filter ?bad [max j (Suc p)..<S] of [] \<Rightarrow> S | x # _ \<Rightarrow> x)"
  show ?case
  proof (cases "j < S")
    case False
    then have "?stop j = S" by simp
    moreover have "hint_mark vi buf j S = vi" using False by (intro hint_mark_empty) simp
    ultimately show ?thesis using False by (subst UnpackHint_indices.simps) (simp add: Let_def)
  next
    case True
    show ?thesis
    proof (cases "j > p \<and> ?bad j")
      case bad: True
      then have m: "max j (Suc p) = j" by simp
      have "[j..<S] = j # [Suc j..<S]" using True by (simp add: upt_conv_Cons)
      then have st: "?stop j = j" using bad by (simp add: m)
      have "hint_mark vi buf j j = vi" by (intro hint_mark_empty) simp
      then show ?thesis using True bad st
        by (subst UnpackHint_indices.simps) (simp add: Let_def)
    next
      case good: False
      define vi' where "vi' = vi[unat (buf ! j) := 1]"
      have lv: "length vi' = N" using "1.prems" by (simp add: vi'_def)
      have st: "?stop j = ?stop (Suc j)"
        using True good by (intro hint_stop_from) auto
      have lt: "j < ?stop (Suc j)" using True by (intro hint_stop_bound) simp_all
      have idx: "unat (buf ! j) < length vi"
        using unsigned_less [of "buf ! j", where 'a = nat] "1.prems" by (simp add: N_def)
      have mk: "hint_mark vi' buf (Suc j) (?stop (Suc j)) = hint_mark vi buf j (?stop (Suc j))"
        unfolding vi'_def using lt idx by (rule hint_mark_step)
      have "UnpackHint_indices buf p S j vi = UnpackHint_indices buf p S (j + 1) vi'"
        using True good by (subst UnpackHint_indices.simps) (auto simp: vi'_def)
      also have "\<dots> = (hint_mark vi' buf (Suc j) (?stop (Suc j)), ?stop (Suc j) = S)"
        using "1.IH" [OF True good, folded vi'_def, OF lv] by (simp add: Let_def)
      finally show ?thesis using mk st by (simp add: Let_def)
    qed
  qed
qed

lemma indices_from_prev:
  assumes "length vi = N"
  shows "UnpackHint_indices buf p S p vi = (hint_mark vi buf p (hint_stop buf p S), hint_stop buf p S = S)"
proof -
  have "max p (Suc p) = Suc p" by simp
  then show ?thesis using indices_exact [OF assms, of buf p S p]
    by (simp add: Let_def hint_stop_def)
qed

lemma hint_decoded_from_end: "hint_decoded_from K K Omega buf = []"
  by (simp add: hint_decoded_from_def)

lemma hint_decoded_from_pass:
  assumes "i < K" "hint_elem_pass Omega buf i"
  shows "hint_decoded_from i K Omega buf
         = hint_elem_out Omega buf i # hint_decoded_from (Suc i) K Omega buf"
proof -
  have u: "[i..<K] = i # [Suc i..<K]" using assms(1) by (simp add: upt_conv_Cons)
  show ?thesis unfolding hint_decoded_from_def u using assms(2) by simp
qed

lemma hint_decoded_from_fail:
  assumes "i < K" "\<not> hint_elem_pass Omega buf i"
  shows "hint_decoded_from i K Omega buf
         = hint_elem_out Omega buf i # replicate (K - Suc i) (replicate N 0)"
proof -
  have u: "[i..<K] = i # [Suc i..<K]" using assms(1) by (simp add: upt_conv_Cons)
  have "map (\<lambda>i'. if i' \<le> i then hint_elem_out Omega buf i' else replicate N 0) [Suc i..<K]
      = map (\<lambda>i'. replicate N 0) [Suc i..<K]"
    by (rule map_cong) auto
  also have "\<dots> = replicate (K - Suc i) (replicate N 0)" by (simp add: map_replicate_const)
  finally show ?thesis unfolding hint_decoded_from_def u using assms(2) by simp
qed

lemma zero_tail_update:
  assumes "length v = K" "\<forall>i'. i \<le> i' \<and> i' < K \<longrightarrow> v ! i' = z" "i < K"
  shows "v[i := x] = take i v @ x # replicate (K - Suc i) z"
proof (rule nth_equalityI)
  show "length (v[i := x]) = length (take i v @ x # replicate (K - Suc i) z)"
    using assms by simp
next
  fix n assume "n < length (v[i := x])"
  then have n: "n < K" using assms(1) by simp
  consider "n < i" | "n = i" | "i < n" by linarith
  then show "v[i := x] ! n = (take i v @ x # replicate (K - Suc i) z) ! n"
  proof cases
    case 1
    then show ?thesis using assms by (simp add: nth_append)
  next
    case 2
    then show ?thesis using assms by (simp add: nth_append)
  next
    case 3
    then have "(take i v @ x # replicate (K - Suc i) z) ! n = (x # replicate (K - Suc i) z) ! (n - i)"
      using assms by (simp add: nth_append)
    also have "\<dots> = z" using 3 n by (cases "n - i") simp_all
    finally show ?thesis using 3 n assms by simp
  qed
qed

lemma elem_iteration:
  assumes "hint_SOP_ok Omega buf i" "prev = hint_prevSOP Omega buf i" "SOP = hint_SOP Omega buf i"
  shows "UnpackHint_indices buf (unat prev) (unat SOP) (unat prev) (replicate N 0)
         = (hint_elem_out Omega buf i, hint_elem_pass Omega buf i)"
  using assms indices_from_prev [of "replicate N 0" buf "unat prev" "unat SOP"]
  by (simp add: hint_elem_out_def hint_elem_pass_def hint_mark_zero)

lemma polys_exact:
  "length v = K \<Longrightarrow> \<forall>i'. i \<le> i' \<and> i' < K \<longrightarrow> v ! i' = replicate N 0 \<Longrightarrow>
   prev = hint_prevSOP Omega buf i \<Longrightarrow> i \<le> K \<Longrightarrow>
   UnpackHint_polys K Omega buf i prev v = Inr (v', ok, ps) \<Longrightarrow>
   v' = take i v @ hint_decoded_from i K Omega buf"
proof (induction K Omega buf i prev v rule: UnpackHint_polys.induct)
  case (1 K Omega buf i prev v)
  show ?case
  proof (cases "i < K")
    case False
    with "1.prems" have "i = K" by simp
    moreover from False "1.prems"(5) have "v' = v"
      by (subst (asm) UnpackHint_polys.simps) simp
    ultimately show ?thesis using "1.prems"(1) by (simp add: hint_decoded_from_end)
  next
    case True
    show ?thesis
    proof (cases "length buf \<le> Omega + i")
      case True
      with \<open>i < K\<close> "1.prems"(5) show ?thesis
        by (subst (asm) UnpackHint_polys.simps) simp
    next
      case len: False
      define SOP where "SOP = buf ! (Omega + i)"
      have SOP: "SOP = hint_SOP Omega buf i" by (simp add: SOP_def hint_SOP_def)
      have vi0: "v ! i = replicate N 0" using "1.prems"(2) True by simp
      show ?thesis
      proof (cases "SOP < prev \<or> Omega < unat SOP")
        case bad: True
        then have nok: "\<not> hint_SOP_ok Omega buf i"
          using SOP "1.prems"(3) by (auto simp: hint_SOP_ok_def)
        then have np: "\<not> hint_elem_pass Omega buf i" by (simp add: hint_elem_pass_def)
        have out: "hint_elem_out Omega buf i = replicate N 0"
          using nok by (simp add: hint_elem_out_def)
        have "v' = v" using True len bad "1.prems"(5)
          by (subst (asm) UnpackHint_polys.simps) (auto simp: SOP_def Let_def)
        also have "v = v[i := replicate N 0]" using vi0 by (metis list_update_id)
        also have "\<dots> = take i v @ replicate N 0 # replicate (K - Suc i) (replicate N 0)"
          using "1.prems"(1,2) True by (rule zero_tail_update)
        finally show ?thesis using hint_decoded_from_fail [OF True np] out by simp
      next
        case good: False
        then have sok: "hint_SOP_ok Omega buf i"
          using SOP "1.prems"(3) by (auto simp: hint_SOP_ok_def not_less)
        have it: "UnpackHint_indices buf (unat prev) (unat SOP) (unat prev) (v ! i)
            = (hint_elem_out Omega buf i, hint_elem_pass Omega buf i)"
          unfolding vi0 using sok "1.prems"(3) SOP by (rule elem_iteration)
        show ?thesis
        proof (cases "hint_elem_pass Omega buf i")
          case False
          have "v' = v[i := hint_elem_out Omega buf i]"
            using True len good it False "1.prems"(5)
            by (subst (asm) UnpackHint_polys.simps) (auto simp: SOP_def [symmetric] Let_def)
          also have "\<dots> = take i v @ hint_elem_out Omega buf i # replicate (K - Suc i) (replicate N 0)"
            using "1.prems"(1,2) True by (rule zero_tail_update)
          finally show ?thesis using hint_decoded_from_fail [OF True False] by simp
        next
          case pass: True
          define w where "w = v[i := hint_elem_out Omega buf i]"
          have step: "UnpackHint_polys K Omega buf (i + 1) SOP w = Inr (v', ok, ps)"
            using True len good it pass "1.prems"(5)
            by (subst (asm) UnpackHint_polys.simps) (auto simp: SOP_def [symmetric] Let_def w_def)
          have lw: "length w = K" using "1.prems"(1) by (simp add: w_def)
          have zw: "\<forall>i'. i + 1 \<le> i' \<and> i' < K \<longrightarrow> w ! i' = replicate N 0"
            using "1.prems"(2) by (simp add: w_def)
          have p': "SOP = hint_prevSOP Omega buf (i + 1)"
            by (simp add: SOP_def hint_prevSOP_def)
          have i': "i + 1 \<le> K" using True by simp
          have "v' = take (i + 1) w @ hint_decoded_from (i + 1) K Omega buf"
            using "1.IH" [OF True len SOP_def good it [symmetric] pass, folded w_def, OF lw zw p' i' step] .
          moreover have "take (i + 1) w = take i v @ [hint_elem_out Omega buf i]"
            using True "1.prems"(1) by (simp add: w_def take_Suc_conv_app_nth)
          ultimately show ?thesis using hint_decoded_from_pass [OF True pass] by simp
        qed
      qed
    qed
  qed
qed

lemma UnpackHint_exact:
  assumes "UnpackHint K Omega v buf = Inr (v', ok)"
  shows "v' = hint_decoded K Omega buf"
proof -
  from assms obtain ok' ps where
    r: "UnpackHint_polys K Omega buf 0 0 (replicate K (replicate N 0)) = Inr (v', ok', ps)"
    by (auto simp: UnpackHint_def split: sum.splits if_splits prod.splits)
  have "v' = take 0 (replicate K (replicate N 0)) @ hint_decoded_from 0 K Omega buf"
    using r by (intro polys_exact [where prev = 0 and ok = ok' and ps = ps])
      (simp_all add: hint_prevSOP_def)
  then show ?thesis
    by (simp add: hint_decoded_from_def hint_decoded_def hint_first_fail_def)
qed

subsection \<open>The output of a failed unpack\<close>

lemma indices_bits:
  "length vi = N \<Longrightarrow> \<forall>c \<in> set vi. c = 0 \<or> c = 1 \<Longrightarrow>
   length (fst (UnpackHint_indices buf p S j vi)) = N \<and>
   (\<forall>c \<in> set (fst (UnpackHint_indices buf p S j vi)). c = 0 \<or> c = 1)"
proof (induction buf p S j vi rule: UnpackHint_indices.induct)
  case (1 buf p S j vi)
  show ?case
  proof (cases "j < S \<and> \<not> (j > p \<and> buf ! j \<le> buf ! (j - 1))")
    case False
    then show ?thesis using "1.prems" by (subst (1 2) UnpackHint_indices.simps) auto
  next
    case True
    have "set (vi[unat (buf ! j) := 1]) \<subseteq> insert 1 (set vi)"
      by (rule set_update_subset_insert)
    then have "\<forall>c \<in> set (vi[unat (buf ! j) := 1]). c = 0 \<or> c = 1"
      using "1.prems"(2) by auto
    then show ?thesis
      using True "1.IH" [of ] "1.prems"(1) by (subst (1 2) UnpackHint_indices.simps) auto
  qed
qed

lemma polys_bits:
  "length v = K \<Longrightarrow> \<forall>q \<in> set v. length q = N \<and> (\<forall>c \<in> set q. c = 0 \<or> c = 1) \<Longrightarrow>
   UnpackHint_polys K Omega buf i prev v = Inr (v', ok, ps) \<Longrightarrow>
   length v' = K \<and> (\<forall>q \<in> set v'. length q = N \<and> (\<forall>c \<in> set q. c = 0 \<or> c = 1))"
proof (induction K Omega buf i prev v rule: UnpackHint_polys.induct)
  case (1 K Omega buf i prev v)
  show ?case
  proof (cases "i < K")
    case False
    with "1.prems" show ?thesis by (subst (asm) UnpackHint_polys.simps) auto
  next
    case True
    show ?thesis
    proof (cases "length buf \<le> Omega + i")
      case True
      with \<open>i < K\<close> "1.prems"(3) show ?thesis by (subst (asm) UnpackHint_polys.simps) auto
    next
      case len: False
      define SOP where "SOP = buf ! (Omega + i)"
      show ?thesis
      proof (cases "SOP < prev \<or> Omega < unat SOP")
        case bad: True
        with True len "1.prems" show ?thesis
          by (subst (asm) UnpackHint_polys.simps) (auto simp: SOP_def Let_def)
      next
        case good: False
        obtain vi ok' where r: "UnpackHint_indices buf (unat prev) (unat SOP) (unat prev) (v ! i) = (vi, ok')"
          by (cases "UnpackHint_indices buf (unat prev) (unat SOP) (unat prev) (v ! i)")
        have vi_in: "v ! i \<in> set v" using True "1.prems"(1) by simp
        have vi: "length vi = N \<and> (\<forall>c \<in> set vi. c = 0 \<or> c = 1)"
          using indices_bits [of "v ! i" buf "unat prev" "unat SOP" "unat prev"] r vi_in "1.prems"(2)
          by auto
        have "set (v[i := vi]) \<subseteq> insert vi (set v)" by (rule set_update_subset_insert)
        then have v2: "\<forall>q \<in> set (v[i := vi]). length q = N \<and> (\<forall>c \<in> set q. c = 0 \<or> c = 1)"
          using vi "1.prems"(2) by auto
        have l2: "length (v[i := vi]) = K" using "1.prems"(1) by simp
        show ?thesis
        proof (cases ok')
          case False
          have "UnpackHint_polys K Omega buf i prev v = Inr (v[i := vi], False, prev)"
            using True len good r False
            by (subst UnpackHint_polys.simps) (auto simp: SOP_def [symmetric] Let_def)
          with "1.prems"(3) v2 l2 show ?thesis by auto
        next
          case okT: True
          have step: "UnpackHint_polys K Omega buf i prev v = UnpackHint_polys K Omega buf (i + 1) SOP (v[i := vi])"
            using True len good r okT
            by (subst UnpackHint_polys.simps) (auto simp: SOP_def [symmetric] Let_def)
          show ?thesis
            using "1.IH" [OF True len SOP_def good r [symmetric] okT l2 v2] "1.prems"(3) step by simp
        qed
      qed
    qed
  qed
qed

lemma UnpackHint_bits:
  assumes "UnpackHint K Omega v buf = Inr (v', ok)"
  shows "length v' = K \<and> (\<forall>q \<in> set v'. length q = N \<and> (\<forall>c \<in> set q. c = 0 \<or> c = 1))"
proof -
  from assms obtain ok' ps where "UnpackHint_polys K Omega buf 0 0 (replicate K (replicate N 0)) = Inr (v', ok', ps)"
    by (auto simp: UnpackHint_def split: sum.splits if_splits prod.splits)
  then show ?thesis
    using polys_bits [of "replicate K (replicate N 0)" K Omega buf 0 0 v' ok' ps] by auto
qed

text \<open>C5, as the specification states it, fails for \<open>UnpackHint\<close>: on the buffer
  \<open>hint_partial_buf\<close> (first switch-over point 1 with index byte 5, second switch-over
  point 0) the call returns failure and coefficient 5 of the first polynomial is left at 1.\<close>

theorem UnpackHint_failure_not_zeroed:
  "UnpackHint 5 96 [] hint_partial_buf = Inr (hint_partial_out, False) \<and>
   hint_partial_out ! 0 ! 5 = 1 \<and> hint_partial_out \<noteq> replicate 5 (replicate N 0)"
proof -
  have 1: "UnpackHint 5 96 [] hint_partial_buf = Inr (hint_partial_out, False)" by code_simp
  have 2: "hint_partial_out ! 0 ! 5 = 1" by code_simp
  have 3: "(replicate 5 (replicate N 0) :: u32 list list) ! 0 ! 5 = 0" by (simp add: N_def)
  from 2 3 have "hint_partial_out ! 0 ! 5 \<noteq> (replicate 5 (replicate N 0) :: u32 list list) ! 0 ! 5"
    by simp
  then have "hint_partial_out \<noteq> replicate 5 (replicate N 0)" by metis
  with 1 2 show ?thesis by simp
qed

text \<open>C5 amended: when \<open>UnpackB60\<close> returns failure the output polynomial is entirely zero.
  When \<open>UnpackHint\<close> returns failure the output is not rolled back: it is exactly the vector
  \<open>hint_decoded\<close>, that is the zeroed vector with the hint bits decoded before the violation
  was found. Each element before the first violating one holds a 1 exactly at the indices
  named by its whole index range; the violating element holds a 1 exactly at the indices
  named before the out-of-order position, and nothing when its switch-over point is
  invalid; every later element and every other coefficient is 0.\<close>

theorem failed_unpack_output:
  "(UnpackB60 Q p buf = Inr (p', False) \<longrightarrow> p' = replicate N 0) \<and>
   (UnpackHint K Omega v hbuf = Inr (v', False) \<longrightarrow>
      v' = hint_decoded K Omega hbuf \<and>
      length v' = K \<and> (\<forall>q \<in> set v'. length q = N \<and> (\<forall>c \<in> set q. c = 0 \<or> c = 1)))"
  using UnpackHint_bits [of K Omega v hbuf v' False] UnpackHint_exact [of K Omega v hbuf v' False]
  by (auto simp: UnpackB60_def Let_def split: if_splits)

theorem failed_unpack_output_witness:
  "UnpackB60 8380417 [] B60_reject_buf = Inr (replicate N 0, False) \<and>
   UnpackHint 5 96 [] hint_partial_buf = Inr (hint_partial_out, False) \<and>
   hint_partial_out = hint_decoded 5 96 hint_partial_buf \<and>
   hint_first_fail 5 96 hint_partial_buf = 1 \<and>
   length hint_partial_out = 5 \<and>
   list_all (\<lambda>q. length q = N \<and> list_all (\<lambda>c. c = 0 \<or> c = 1) q) hint_partial_out"
proof -
  have 1: "UnpackB60 8380417 [] B60_reject_buf = Inr (replicate N 0, False)" by code_simp
  have 2: "UnpackHint 5 96 [] hint_partial_buf = Inr (hint_partial_out, False)" by code_simp
  have 3: "hint_first_fail 5 96 hint_partial_buf = 1" by code_simp
  show ?thesis
    using failed_unpack_output [of 8380417 "[]" B60_reject_buf "replicate N 0" 5 96 "[]"
        hint_partial_buf hint_partial_out] 1 2 3
    by (simp add: list_all_iff)
qed

subsection \<open>The noise sampler\<close>

lemma DeriveNoise3_coeffs_returns:
  "8 * i + 8 \<le> length p \<Longrightarrow>
   \<exists>p' d'. DeriveNoise3_coeffs i j d p = Inr (p', d') \<and> length p' = length p"
proof (induction i j d p rule: DeriveNoise3_coeffs.induct)
  case (1 i j d p)
  show ?case
  proof (cases "j < 8")
    case False
    then show ?thesis by (subst DeriveNoise3_coeffs.simps) simp
  next
    case True
    with "1.prems" have idx: "8 * i + j < length p" by simp
    show ?thesis
      using "1.IH" [OF True refl refl refl refl idx] "1.prems" True idx
      by (subst DeriveNoise3_coeffs.simps) (simp add: Let_def)
  qed
qed

lemma DeriveNoise3_groups_returns:
  "length buf = 194 \<Longrightarrow> length p = N \<Longrightarrow>
   \<exists>p'. DeriveNoise3_groups buf i p = Inr p' \<and> length p' = N"
proof (induction buf i p rule: DeriveNoise3_groups.induct)
  case (1 buf i p)
  show ?case
  proof (cases "i < 32")
    case False
    then show ?thesis using "1.prems" by (subst DeriveNoise3_groups.simps) simp
  next
    case True
    have s: "slice_from buf (6 * i) = Inr (drop (6 * i) buf)"
      using True "1.prems" by (simp add: slice_from_def)
    have "\<not> length (drop (6 * i) buf) < 8" using True "1.prems" by simp
    then obtain t where u: "Uint64 (drop (6 * i) buf) = Inr t"
      unfolding Uint64_def by auto
    define d2 where "d2 = (t AND 0x249249249249) + (drop_bit 1 t AND 0x249249249249)
        + (drop_bit 2 t AND 0x249249249249)"
    have "8 * i + 8 \<le> length p" using True "1.prems" by (simp add: N_def)
    then obtain p' d' where c: "DeriveNoise3_coeffs i 0 d2 p = Inr (p', d')" and l: "length p' = length p"
      using DeriveNoise3_coeffs_returns by blast
    have "\<exists>q. DeriveNoise3_groups buf (i + 1) p' = Inr q \<and> length q = N"
      using "1.IH" [OF True s u refl refl refl, of "(p', d')" p' d'] c l "1.prems"
      by (simp add: d2_def)
    then show ?thesis
      using True s u c by (subst DeriveNoise3_groups.simps) (simp add: Let_def d2_def)
  qed
qed

lemma DeriveNoise2_coeffs_returns:
  "16 * i + 16 \<le> length p \<Longrightarrow>
   \<exists>p' d'. DeriveNoise2_coeffs i j d p = Inr (p', d') \<and> length p' = length p"
proof (induction i j d p rule: DeriveNoise2_coeffs.induct)
  case (1 i j d p)
  show ?case
  proof (cases "j < 16")
    case False
    then show ?thesis by (subst DeriveNoise2_coeffs.simps) simp
  next
    case True
    with "1.prems" have idx: "16 * i + j < length p" by simp
    show ?thesis
      using "1.IH" [OF True refl refl refl refl idx] "1.prems" True idx
      by (subst DeriveNoise2_coeffs.simps) (simp add: Let_def)
  qed
qed

lemma DeriveNoise2_groups_returns:
  "length buf = 128 \<Longrightarrow> length p = N \<Longrightarrow>
   \<exists>p'. DeriveNoise2_groups buf i p = Inr p' \<and> length p' = N"
proof (induction buf i p rule: DeriveNoise2_groups.induct)
  case (1 buf i p)
  show ?case
  proof (cases "i < 16")
    case False
    then show ?thesis using "1.prems" by (subst DeriveNoise2_groups.simps) simp
  next
    case True
    have s: "slice_from buf (8 * i) = Inr (drop (8 * i) buf)"
      using True "1.prems" by (simp add: slice_from_def)
    have "\<not> length (drop (8 * i) buf) < 8" using True "1.prems" by simp
    then obtain t where u: "Uint64 (drop (8 * i) buf) = Inr t"
      unfolding Uint64_def by auto
    define d1 where "d1 = (t AND 0x5555555555555555) + (drop_bit 1 t AND 0x5555555555555555)"
    have "16 * i + 16 \<le> length p" using True "1.prems" by (simp add: N_def)
    then obtain p' d' where c: "DeriveNoise2_coeffs i 0 d1 p = Inr (p', d')" and l: "length p' = length p"
      using DeriveNoise2_coeffs_returns by blast
    have "\<exists>q. DeriveNoise2_groups buf (i + 1) p' = Inr q \<and> length q = N"
      using "1.IH" [OF True s u refl refl, of "(p', d')" p' d'] c l "1.prems"
      by (simp add: d1_def)
    then show ?thesis
      using True s u c by (subst DeriveNoise2_groups.simps) (simp add: Let_def d1_def)
  qed
qed

lemma DeriveNoise3_returns:
  "length p = N \<Longrightarrow> \<exists>p'. DeriveNoise3 sh p seed nonce = Inr p' \<and> length p' = N"
  using DeriveNoise3_groups_returns [of "map (sh (seed @ [nonce])) [0..<192] @ [0, 0]" p 0]
  by (simp add: DeriveNoise3_def)

lemma DeriveNoise2_returns:
  "length p = N \<Longrightarrow> \<exists>p'. DeriveNoise2 sh p seed nonce = Inr p' \<and> length p' = N"
  using DeriveNoise2_groups_returns [of "map (sh (seed @ [nonce])) [0..<128]" p 0]
  by (simp add: DeriveNoise2_def)

text \<open>C10: \<open>DeriveNoise\<close> panics if and only if \<open>eta\<close> is neither 2 nor 3, and then with
  the explicit "unsupported eta" panic; for \<open>eta = 2\<close> and \<open>eta = 3\<close> it is the call of
  \<open>DeriveNoise2\<close> and \<open>DeriveNoise3\<close> respectively, which returns without any panic.\<close>

theorem DeriveNoise_panics_iff:
  assumes "length p = N"
  shows "((\<exists>e. DeriveNoise sh p seed nonce eta = Inl e) \<longleftrightarrow> eta \<noteq> 2 \<and> eta \<noteq> 3)
       \<and> (eta \<noteq> 2 \<and> eta \<noteq> 3 \<longrightarrow> DeriveNoise sh p seed nonce eta = Inl UnsupportedEta)
       \<and> (eta = 2 \<longrightarrow> DeriveNoise sh p seed nonce eta = DeriveNoise2 sh p seed nonce
                      \<and> (\<exists>p'. DeriveNoise2 sh p seed nonce = Inr p' \<and> length p' = N))
       \<and> (eta = 3 \<longrightarrow> DeriveNoise sh p seed nonce eta = DeriveNoise3 sh p seed nonce
                      \<and> (\<exists>p'. DeriveNoise3 sh p seed nonce = Inr p' \<and> length p' = N))"
  using DeriveNoise2_returns [OF assms, of sh seed nonce] DeriveNoise3_returns [OF assms, of sh seed nonce]
  by (auto simp: DeriveNoise_def)

theorem DeriveNoise_panics_iff_witness:
  "length (replicate N (0 :: i16)) = N \<and>
   DeriveNoise counting_stream (replicate N 0) [1, 2, 3] 7 4 = Inl UnsupportedEta \<and>
   (\<exists>p'. DeriveNoise counting_stream (replicate N 0) [1, 2, 3] 7 2 = Inr p' \<and> length p' = N) \<and>
   (\<exists>p'. DeriveNoise counting_stream (replicate N 0) [1, 2, 3] 7 3 = Inr p' \<and> length p' = N)"
proof -
  have l: "length (replicate N (0 :: i16)) = N" by simp
  show ?thesis
    using l DeriveNoise_panics_iff [OF l, of counting_stream "[1, 2, 3]" 7 4]
      DeriveNoise_panics_iff [OF l, of counting_stream "[1, 2, 3]" 7 2]
      DeriveNoise_panics_iff [OF l, of counting_stream "[1, 2, 3]" 7 3]
    by simp
qed

subsection \<open>The uniform sampler\<close>

lemma accept_holds:
  assumes "DeriveUniform_holds A s" "length A < N"
  shows "DeriveUniform_holds (A @ filter (\<lambda>t. t < Q) [t]) (DeriveUniform_accept Q t s)"
proof -
  obtain i p where s: "s = (i, p)" by (cases s)
  from assms s have i: "i = length A" "length p = N" "take i p = map ucast A" "i < length p"
    by (auto simp add: DeriveUniform_holds_def)
  show ?thesis
  proof (cases "t < Q")
    case False
    with assms s show ?thesis by (simp add: DeriveUniform_accept_def)
  next
    case True
    have "take (i + 1) (p[i := ucast t]) = take i p @ [ucast t]"
      using i(4) by (simp add: take_Suc_conv_app_nth)
    with True i s show ?thesis
      by (simp add: DeriveUniform_accept_def DeriveUniform_holds_def)
  qed
qed

lemma buf_candidates_step:
  "m < 56 \<Longrightarrow> buf_candidates buf m =
     DeriveUniform_t1 (buf ! (3 * m)) (buf ! (3 * m + 1)) #
     DeriveUniform_t2 (buf ! (3 * m + 1)) (buf ! (3 * m + 2)) # buf_candidates buf (m + 1)"
  by (simp add: buf_candidates_def upt_conv_Cons)

lemma buf_candidates_end: "56 \<le> m \<Longrightarrow> buf_candidates buf m = []"
  by (simp add: buf_candidates_def)

lemma block_holds:
  "DeriveUniform_holds A s \<Longrightarrow> length A < N \<Longrightarrow> j = 3 * m \<Longrightarrow>
   DeriveUniform_holds (take N (A @ filter (\<lambda>t. t < Q) (buf_candidates buf m)))
     (DeriveUniform_block Q buf j s)"
proof (induction Q buf j s arbitrary: A m rule: DeriveUniform_block.induct)
  case (1 Q buf j s)
  show ?case
  proof (cases "j < 168")
    case False
    with "1.prems" have "56 \<le> m" by simp
    with False "1.prems" show ?thesis
      by (subst DeriveUniform_block.simps) (simp add: buf_candidates_end)
  next
    case True
    with "1.prems" have m: "m < 56" by simp
    define t1 where "t1 = DeriveUniform_t1 (buf ! j) (buf ! (j + 1))"
    define t2 where "t2 = DeriveUniform_t2 (buf ! (j + 1)) (buf ! (j + 2))"
    define s1 where "s1 = DeriveUniform_accept Q t1 s"
    define s2 where "s2 = DeriveUniform_accept Q t2 s1"
    define A1 where "A1 = A @ filter (\<lambda>t. t < Q) [t1]"
    define A2 where "A2 = A1 @ filter (\<lambda>t. t < Q) [t2]"
    have c: "buf_candidates buf m = t1 # t2 # buf_candidates buf (m + 1)"
      using buf_candidates_step [OF m, of buf] "1.prems"(3) by (simp add: t1_def t2_def)
    have F: "A @ filter (\<lambda>t. t < Q) (buf_candidates buf m)
        = A2 @ filter (\<lambda>t. t < Q) (buf_candidates buf (m + 1))"
      by (simp add: c A1_def A2_def)
    have F1: "A @ filter (\<lambda>t. t < Q) (buf_candidates buf m)
        = A1 @ filter (\<lambda>t. t < Q) (t2 # buf_candidates buf (m + 1))"
      by (simp add: c A1_def)
    have h1: "DeriveUniform_holds A1 s1"
      unfolding A1_def s1_def using "1.prems"(1,2) by (rule accept_holds)
    show ?thesis
    proof (cases "t1 < Q \<and> fst s1 = N")
      case b1: True
      then have "length A1 = N" using h1 by (simp add: DeriveUniform_holds_def)
      then have "take N (A @ filter (\<lambda>t. t < Q) (buf_candidates buf m)) = A1"
        by (simp add: F1)
      moreover have "DeriveUniform_block Q buf j s = s1"
        using True b1 by (subst DeriveUniform_block.simps) (simp add: Let_def t1_def s1_def)
      ultimately show ?thesis using h1 by simp
    next
      case nb1: False
      have "length A1 \<le> N" using "1.prems"(2) by (simp add: A1_def)
      moreover have "length A1 \<noteq> N"
      proof
        assume e: "length A1 = N"
        then have "t1 < Q" using "1.prems"(2) by (auto simp: A1_def split: if_splits)
        moreover have "fst s1 = N" using h1 e by (simp add: DeriveUniform_holds_def)
        ultimately show False using nb1 by simp
      qed
      ultimately have l1: "length A1 < N" by simp
      have h2: "DeriveUniform_holds A2 s2"
        unfolding A2_def s2_def using h1 l1 by (rule accept_holds)
      show ?thesis
      proof (cases "t2 < Q \<and> fst s2 = N")
        case b2: True
        then have "length A2 = N" using h2 by (simp add: DeriveUniform_holds_def)
        then have "take N (A @ filter (\<lambda>t. t < Q) (buf_candidates buf m)) = A2"
          by (simp add: F)
        moreover have "DeriveUniform_block Q buf j s = s2"
          using True nb1 b2
          by (subst DeriveUniform_block.simps) (auto simp add: Let_def t1_def t2_def s1_def s2_def)
        ultimately show ?thesis using h2 by simp
      next
        case nb2: False
        have "length A2 \<le> N" using l1 by (simp add: A2_def)
        moreover have "length A2 \<noteq> N"
        proof
          assume e: "length A2 = N"
          then have "t2 < Q" using l1 by (auto simp: A2_def split: if_splits)
          moreover have "fst s2 = N" using h2 e by (simp add: DeriveUniform_holds_def)
          ultimately show False using nb2 by simp
        qed
        ultimately have l2: "length A2 < N" by simp
        have step: "DeriveUniform_block Q buf j s = DeriveUniform_block Q buf (j + 3) s2"
          using True nb1 nb2
          by (subst DeriveUniform_block.simps) (auto simp add: Let_def t1_def t2_def s1_def s2_def)
        have j3: "j + 3 = 3 * (m + 1)" using "1.prems"(3) by simp
        have "DeriveUniform_holds (take N (A2 @ filter (\<lambda>t. t < Q) (buf_candidates buf (m + 1))))
            (DeriveUniform_block Q buf (j + 3) s2)"
          using "1.IH" [OF True t1_def t2_def s1_def _ s2_def _ h2 l2 j3] nb1 nb2 by simp
        then show ?thesis using step F by simp
      qed
    qed
  qed
qed

lemma stream_block_candidates:
  "buf_candidates (stream_block stream b) 0 = block_candidates stream b"
  unfolding buf_candidates_def block_candidates_def stream_block_def
  by (rule arg_cong [where f = concat], rule map_cong) (simp_all add: add.assoc)

lemma accepted_Suc:
  "accepted Q stream (Suc b) = accepted Q stream b @ filter (\<lambda>t. t < Q) (block_candidates stream b)"
  by (simp add: accepted_def)

lemma accepted_prefix:
  "b \<le> n \<Longrightarrow> \<exists>ys. accepted Q stream n = accepted Q stream b @ ys"
proof (induction n)
  case 0
  then show ?case by simp
next
  case (Suc n)
  show ?case
  proof (cases "b = Suc n")
    case True
    then show ?thesis by simp
  next
    case False
    with Suc obtain ys where "accepted Q stream n = accepted Q stream b @ ys" by auto
    then show ?thesis by (simp add: accepted_Suc)
  qed
qed

lemma blocks_return:
  "N \<le> length (accepted Q stream n) \<Longrightarrow> DeriveUniform_holds (accepted Q stream b) s \<Longrightarrow>
   length (accepted Q stream b) < N \<Longrightarrow> b \<le> n \<Longrightarrow>
   \<exists>s'. DeriveUniform_blocks Q stream b s = Some s' \<and>
        DeriveUniform_holds (take N (accepted Q stream n)) s'"
proof (induction "n - b" arbitrary: b s)
  case 0
  then show ?case by simp
next
  case (Suc k)
  define s' where "s' = DeriveUniform_block Q (stream_block stream b) 0 s"
  have h: "DeriveUniform_holds (take N (accepted Q stream (Suc b))) s'"
    using block_holds [OF Suc.prems(2,3), of 0 0 Q "stream_block stream b"]
    by (simp add: s'_def stream_block_candidates accepted_Suc)
  have bn: "Suc b \<le> n" using Suc.hyps(2) by simp
  then obtain ys where ys: "accepted Q stream n = accepted Q stream (Suc b) @ ys"
    using accepted_prefix by blast
  have unf: "DeriveUniform_blocks Q stream b s =
      (if fst s' = N then Some s' else DeriveUniform_blocks Q stream (b + 1) s')"
    by (subst DeriveUniform_blocks.simps) (simp add: Let_def s'_def)
  show ?case
  proof (cases "fst s' = N")
    case True
    with h have "N \<le> length (accepted Q stream (Suc b))"
      by (auto simp: DeriveUniform_holds_def min_def split: if_splits)
    then have "take N (accepted Q stream n) = take N (accepted Q stream (Suc b))"
      by (simp add: ys)
    with True h unf show ?thesis by simp
  next
    case False
    with h have l: "length (accepted Q stream (Suc b)) < N"
      by (auto simp: DeriveUniform_holds_def min_def split: if_splits)
    then have h': "DeriveUniform_holds (accepted Q stream (Suc b)) s'"
      using h by simp
    have k: "k = n - Suc b" using Suc.hyps(2) by simp
    show ?thesis
      using Suc.hyps(1) [OF k Suc.prems(1) h' l bn] False unf by simp
  qed
qed

lemma candidate_sint:
  "sint ((x :: u16) AND 0xfff) = uint (x AND 0xfff)"
proof -
  define t where "t = x AND 0xfff"
  have "t \<le> 0xfff" unfolding t_def by (rule word_and_le1)
  then have "uint t \<le> 4095" by (simp add: word_le_def)
  moreover have "- (2 ^ 15) \<le> uint t"
  proof -
    have "- (2 ^ 15) \<le> (0 :: int)" by simp
    also have "0 \<le> uint t" by simp
    finally show ?thesis .
  qed
  ultimately have "signed_take_bit 15 (uint t) = uint t"
    by (intro signed_take_bit_int_eq_self) simp_all
  then show ?thesis by (simp add: sint_uint t_def)
qed

lemma block_candidates_12bit:
  "t \<in> set (block_candidates stream b) \<Longrightarrow> \<exists>x. t = x AND 0xfff"
  by (auto simp: block_candidates_def DeriveUniform_t1_def DeriveUniform_t2_def)

lemma accepted_range:
  assumes "t \<in> set (accepted Q stream n)"
  shows "0 \<le> sint (ucast t :: i16) \<and> sint (ucast t :: i16) < uint Q"
proof -
  from assms have lt: "t < Q" and "\<exists>b. t \<in> set (block_candidates stream b)"
    by (auto simp: accepted_def)
  then obtain x where "t = x AND 0xfff" using block_candidates_12bit by blast
  then have "sint t = uint t" using candidate_sint by simp
  with lt show ?thesis by (simp add: word_less_def)
qed

text \<open>C9: \<open>DeriveUniform\<close> sets all \<open>N\<close> coefficients and each of them is below \<open>Q\<close>:
  candidates that are not below \<open>Q\<close> are rejected and further blocks are squeezed until \<open>N\<close>
  candidates have been accepted. The hash is a parameter, so the theorem is about every
  output stream that holds \<open>N\<close> acceptable candidates within some number \<open>n\<close> of blocks: on
  it the call returns, the coefficients before \<open>Tangle\<close> are exactly the first \<open>N\<close> accepted
  candidates (whatever the receiver held before), and after \<open>Tangle\<close>, a permutation of the
  coefficients, each is in \<open>[0, Q)\<close>.\<close>

theorem DeriveUniform_fills_below_Q:
  assumes "length p = N"
    and "\<And>q. mset (Tangle q) = mset q"
    and "N \<le> length (accepted Q (shake128 (seed @ [x, y])) n)"
  shows "\<exists>p'. DeriveUniform Q shake128 Tangle p seed x y = Some p' \<and>
           p' = Tangle (map ucast (take N (accepted Q (shake128 (seed @ [x, y])) n))) \<and>
           length p' = N \<and> (\<forall>c \<in> set p'. 0 \<le> sint c \<and> sint c < uint Q)"
proof -
  define stream where "stream = shake128 (seed @ [x, y])"
  define A where "A = take N (accepted Q stream n)"
  have h0: "DeriveUniform_holds (accepted Q stream 0) (0, p)"
    by (simp add: DeriveUniform_holds_def accepted_def assms(1))
  have l0: "length (accepted Q stream 0) < N" by (simp add: accepted_def N_def)
  obtain s' where r: "DeriveUniform_blocks Q stream 0 (0, p) = Some s'"
    and h: "DeriveUniform_holds A s'"
    using blocks_return [OF assms(3) [folded stream_def] h0 l0] by (auto simp: A_def)
  obtain i p' where s': "s' = (i, p')" by (cases s')
  have lA: "length A = N" using assms(3) by (simp add: A_def stream_def)
  from h s' lA have p': "p' = map ucast A"
    by (auto simp: DeriveUniform_holds_def)
  have res: "DeriveUniform Q shake128 Tangle p seed x y = Some (Tangle (map ucast A))"
    using r s' p' by (simp add: DeriveUniform_def stream_def)
  have "size (mset (Tangle (map ucast A :: i16 list))) = size (mset (map ucast A :: i16 list))"
    by (simp only: assms(2))
  then have len: "length (Tangle (map ucast A :: i16 list)) = N" using lA by simp
  have "set_mset (mset (Tangle (map ucast A :: i16 list))) = set_mset (mset (map ucast A :: i16 list))"
    by (simp only: assms(2))
  then have set: "set (Tangle (map ucast A :: i16 list)) = ucast ` set A" by simp
  have "set A \<subseteq> set (accepted Q stream n)" unfolding A_def by (rule set_take_subset)
  then have rng: "\<forall>c \<in> set (Tangle (map ucast A :: i16 list)). 0 \<le> sint c \<and> sint c < uint Q"
    using accepted_range [of _ Q stream n] set by auto
  show ?thesis using res len rng by (simp add: A_def stream_def)
qed

theorem DeriveUniform_fills_below_Q_witness:
  "length (replicate N (7 :: i16)) = N \<and> (\<forall>q :: i16 list. mset (rev q) = mset q) \<and>
   N \<le> length (accepted 3329 (counting_stream ([1, 2, 3] @ [7, 3])) 3) \<and>
   (\<exists>p'. DeriveUniform 3329 counting_stream rev (replicate N 7) [1, 2, 3] 7 3 = Some p' \<and>
         length p' = N \<and> list_all (\<lambda>c. 0 \<le> sint c \<and> sint c < 3329) p')"
proof -
  have l: "length (replicate N (7 :: i16)) = N" by simp
  have t: "\<And>q :: i16 list. mset (rev q) = mset q" by simp
  have a: "N \<le> length (accepted 3329 (counting_stream ([1, 2, 3] @ [7, 3])) 3)"
    by (simp add: accepted_def block_candidates_def counting_stream_def DeriveUniform_t1_def
        DeriveUniform_t2_def N_def upt_rec [of 0] upt_Suc_0_numeral)
  show ?thesis
    using DeriveUniform_fills_below_Q [of "replicate N 7" rev 3329 counting_stream "[1, 2, 3]" 7 3 3,
        OF l t a] l a
    by (auto simp: list_all_iff)
qed

end
